theory Spec2Isabelle
  imports Main
begin

section \<open>Values, elements and property bags\<close>

text \<open>
  The tag of an element is a host tag name or a render function (the JSDoc of the source:
  \<^verbatim>\<open>@property {string|Function} type\<close>). Render functions are named by a number, which
  is their identity for \<^verbatim>\<open>==\<close>.
\<close>

datatype etype = Host string | Comp nat

text \<open>
  The JavaScript values the engine handles. \<open>Elem t b\<close> is the object
  \<^verbatim>\<open>{type: t, props: b}\<close>; a property bag is the list of its own keys, in the order
  \<^verbatim>\<open>Object.keys\<close> enumerates them, each with its value. \<open>Fn n\<close> is a function value
  (an event handler), identified by \<open>n\<close>. Arrays have no holes.
\<close>

datatype jsval =
    Undefined
  | Null
  | Bool bool
  | Str string
  | Num int
  | Fn nat
  | Arr "jsval list"
  | Elem etype "(string \<times> jsval) list"

type_synonym bag = "(string \<times> jsval) list"

definition keys :: "bag \<Rightarrow> string list" where
  "keys b = map fst b"

text \<open>\<^verbatim>\<open>key in obj\<close>, for the own keys of a bag.\<close>

definition has :: "bag \<Rightarrow> string \<Rightarrow> bool" where
  "has b k = (k \<in> set (keys b))"

text \<open>\<^verbatim>\<open>obj[key]\<close>: \<^verbatim>\<open>undefined\<close> for a key that is absent.\<close>

definition get :: "bag \<Rightarrow> string \<Rightarrow> jsval" where
  "get b k = (case map_of b k of None \<Rightarrow> Undefined | Some v \<Rightarrow> v)"

text \<open>Writing a key of an object literal: an existing key keeps its place.\<close>

fun put :: "bag \<Rightarrow> string \<Rightarrow> jsval \<Rightarrow> bag" where
  "put [] k v = [(k, v)]"
| "put ((k', v') # b) k v = (if k' = k then (k, v) # b else (k', v') # put b k v)"

text \<open>\<^verbatim>\<open>typeof v === 'object'\<close>\<close>

fun typeof_object :: "jsval \<Rightarrow> bool" where
  "typeof_object Null = True"
| "typeof_object (Arr _) = True"
| "typeof_object (Elem _ _) = True"
| "typeof_object _ = False"


text \<open>\<^verbatim>\<open>Array.prototype.flat()\<close>, depth 1.\<close>

fun flat :: "jsval list \<Rightarrow> jsval list" where
  "flat [] = []"
| "flat (Arr xs # r) = xs @ flat r"
| "flat (v # r) = v # flat r"

text \<open>Truthiness of a value.\<close>

fun truthy :: "jsval \<Rightarrow> bool" where
  "truthy Undefined = False"
| "truthy Null = False"
| "truthy (Bool b) = b"
| "truthy (Str s) = (s \<noteq> [])"
| "truthy (Num n) = (n \<noteq> 0)"
| "truthy _ = True"

section \<open>createElement, both copies of the file\<close>

definition createTextElement :: "jsval \<Rightarrow> jsval" where
  "createTextElement text =
     Elem (Host ''TEXT_ELEMENT'') [(''nodeValue'', text), (''children'', Arr [])]"

text \<open>\<^verbatim>\<open>...props\<close>: spreading \<^verbatim>\<open>null\<close> adds nothing.\<close>

definition spread :: "bag option \<Rightarrow> bag" where
  "spread props = (case props of None \<Rightarrow> [] | Some b \<Rightarrow> b)"

definition normalize_child :: "jsval \<Rightarrow> jsval" where
  "normalize_child child = (if typeof_object child then child else createTextElement child)"

text \<open>The first copy (lines 65-75).\<close>

definition createElement :: "etype \<Rightarrow> bag option \<Rightarrow> jsval list \<Rightarrow> jsval" where
  "createElement type props children =
     Elem type (put (spread props) ''children'' (Arr (map normalize_child children)))"


section \<open>The host renderer and the property diff\<close>

type_synonym handle = nat

text \<open>The calls the engine makes on the host tree, in the order it makes them.\<close>

datatype hostop =
    CreateElement handle string
  | CreateTextNode handle
  | RemoveEventListener handle string jsval
  | SetProperty handle string jsval
  | AddEventListener handle string jsval
  | AppendChild handle handle
  | RemoveChild handle handle

definition isEvent :: "string \<Rightarrow> bool" where
  "isEvent key = (take 2 key = ''on'')"

definition isProperty :: "string \<Rightarrow> bool" where
  "isProperty key = (key \<noteq> ''children'' \<and> \<not> isEvent key)"

text \<open>
  \<^verbatim>\<open>a === b\<close>. Primitives and functions compare by value and identity; objects and arrays
  compare by reference, which the value model does not record: two composite values count
  as two objects, as a render function that builds its element afresh produces them.
\<close>

fun strict_eq :: "jsval \<Rightarrow> jsval \<Rightarrow> bool" where
  "strict_eq (Arr _) _ = False"
| "strict_eq (Elem _ _) _ = False"
| "strict_eq a b = (a = b)"

definition isNew :: "bag \<Rightarrow> bag \<Rightarrow> string \<Rightarrow> bool" where
  "isNew prev next key = (\<not> strict_eq (get prev key) (get next key))"

definition isGone :: "bag \<Rightarrow> bag \<Rightarrow> string \<Rightarrow> bool" where
  "isGone prev next key = (\<not> has next key)"

text \<open>\<^verbatim>\<open>toLowerCase\<close> on the ASCII letters.\<close>

definition lower_char :: "char \<Rightarrow> char" where
  "lower_char c =
     (case map_of (zip ''ABCDEFGHIJKLMNOPQRSTUVWXYZ'' ''abcdefghijklmnopqrstuvwxyz'') c of
        None \<Rightarrow> c
      | Some l \<Rightarrow> l)"

text \<open>\<^verbatim>\<open>name.toLowerCase().substring(2)\<close>\<close>

definition eventType :: "string \<Rightarrow> string" where
  "eventType name = drop 2 (map lower_char name)"

text \<open>
  \<^verbatim>\<open>updateDom\<close>: four \<^verbatim>\<open>forEach\<close> loops, each one a fold that appends one host call
  per key to the calls made so far.
\<close>

definition unbind_step :: "handle \<Rightarrow> bag \<Rightarrow> hostop list \<Rightarrow> string \<Rightarrow> hostop list" where
  "unbind_step node prevProps log name =
     log @ [RemoveEventListener node (eventType name) (get prevProps name)]"

definition clear_step :: "handle \<Rightarrow> hostop list \<Rightarrow> string \<Rightarrow> hostop list" where
  "clear_step node log name = log @ [SetProperty node name (Str [])]"

definition set_step :: "handle \<Rightarrow> bag \<Rightarrow> hostop list \<Rightarrow> string \<Rightarrow> hostop list" where
  "set_step node nextProps log name = log @ [SetProperty node name (get nextProps name)]"

definition bind_step :: "handle \<Rightarrow> bag \<Rightarrow> hostop list \<Rightarrow> string \<Rightarrow> hostop list" where
  "bind_step node nextProps log name =
     log @ [AddEventListener node (eventType name) (get nextProps name)]"

definition updateDom :: "handle \<Rightarrow> bag \<Rightarrow> bag \<Rightarrow> hostop list" where
  "updateDom node prevProps nextProps =
    (let log1 = foldl (unbind_step node prevProps) []
                  (filter (\<lambda>key. \<not> has nextProps key \<or> isNew prevProps nextProps key)
                    (filter isEvent (keys prevProps)));
         log2 = foldl (clear_step node) log1
                  (filter (isGone prevProps nextProps) (filter isProperty (keys prevProps)));
         log3 = foldl (set_step node nextProps) log2
                  (filter (isNew prevProps nextProps) (filter isProperty (keys nextProps)));
         log4 = foldl (bind_step node nextProps) log3
                  (filter (isNew prevProps nextProps) (filter isEvent (keys nextProps)))
     in log4)"

section \<open>Fibers and the scheduler state\<close>

type_synonym addr = nat
type_synonym haddr = nat

datatype effect = UPDATE | PLACEMENT | DELETION

text \<open>
  A fiber object. A field that is \<^verbatim>\<open>null\<close> or \<^verbatim>\<open>undefined\<close> is \<open>None\<close>. The links are
  addresses of the fiber store; \<open>hooks\<close> holds the addresses of the hook objects.
\<close>

record fiber =
  ftype :: "etype option"
  props :: "bag option"
  domNode :: "handle option"
  parent :: "addr option"
  child :: "addr option"
  sibling :: "addr option"
  alternate :: "addr option"
  effectTag :: "effect option"
  hooks :: "haddr list option"

record hook =
  state :: jsval
  queue :: "(jsval \<Rightarrow> jsval) list"

datatype error = TypeError | HostError | OutOfFuel

text \<open>
  The global variables of the file, the store of the fiber objects and of the hook
  objects (with the next unused address of each), the next unused host handle, and the
  host calls made so far.
\<close>

record engine =
  heap :: "addr \<Rightarrow> fiber"
  fresh :: addr
  hookHeap :: "haddr \<Rightarrow> hook"
  freshHook :: haddr
  freshNode :: handle
  hostlog :: "hostop list"
  nextUnitOfWork :: "addr option"
  currentRoot :: "addr option"
  wipRoot :: "addr option"
  deletions :: "addr list option"
  wipFiber :: "addr option"
  hookIndex :: "nat option"

definition blank :: fiber where
  "blank = \<lparr>ftype = None, props = None, domNode = None, parent = None, child = None,
     sibling = None, alternate = None, effectTag = None, hooks = None\<rparr>"

definition init :: engine where
  "init = \<lparr>heap = (\<lambda>_. blank), fresh = 0,
     hookHeap = (\<lambda>_. \<lparr>state = Undefined, queue = []\<rparr>), freshHook = 0,
     freshNode = 1, hostlog = [],
     nextUnitOfWork = None, currentRoot = None, wipRoot = None, deletions = None,
     wipFiber = None, hookIndex = None\<rparr>"

text \<open>An object literal: a new fiber at the next unused address.\<close>

definition alloc :: "fiber \<Rightarrow> engine \<Rightarrow> addr \<times> engine" where
  "alloc f st = (fresh st, st\<lparr>heap := (heap st)(fresh st := f), fresh := Suc (fresh st)\<rparr>)"

section \<open>render\<close>

definition render :: "jsval \<Rightarrow> handle \<Rightarrow> engine \<Rightarrow> engine" where
  "render element container st =
    (let (r, st1) = alloc (blank\<lparr>domNode := Some container,
                                 props := Some [(''children'', Arr [element])],
                                 alternate := currentRoot st\<rparr>) st
     in st1\<lparr>wipRoot := Some r, deletions := Some [], nextUnitOfWork := Some r\<rparr>)"

section \<open>reconcileChildren\<close>

text \<open>\<^verbatim>\<open>element.type\<close> and \<^verbatim>\<open>element.props\<close> of a truthy value.\<close>

fun el_type :: "jsval \<Rightarrow> etype option" where
  "el_type (Elem t b) = Some t"
| "el_type _ = None"

fun el_props :: "jsval \<Rightarrow> bag option" where
  "el_props (Elem t b) = Some b"
| "el_props _ = None"

text \<open>The variables of the loop.\<close>

record cursor =
  index :: nat
  oldFiber :: "addr option"
  prevSibling :: "addr option"

text \<open>\<^verbatim>\<open>oldFiber && element && element.type == oldFiber.type\<close>\<close>

definition sameType :: "engine \<Rightarrow> addr option \<Rightarrow> jsval \<Rightarrow> bool" where
  "sameType st old element =
     (case old of None \<Rightarrow> False
      | Some a \<Rightarrow> truthy element \<and> el_type element = ftype (heap st a))"

text \<open>The object that \<^verbatim>\<open>newFiber\<close> is assigned in one iteration, if any.\<close>

definition new_fiber :: "addr \<Rightarrow> addr option \<Rightarrow> jsval \<Rightarrow> engine \<Rightarrow> fiber option" where
  "new_fiber wip old element st =
     (case (sameType st old element, old) of
        (True, Some a) \<Rightarrow>
          Some (blank\<lparr>ftype := ftype (heap st a), props := el_props element,
                      domNode := domNode (heap st a), parent := Some wip,
                      alternate := Some a, effectTag := Some UPDATE\<rparr>)
      | _ \<Rightarrow>
          if truthy element then
            Some (blank\<lparr>ftype := el_type element, props := el_props element,
                        domNode := None, parent := Some wip,
                        alternate := None, effectTag := Some PLACEMENT\<rparr>)
          else None)"

definition make_fiber :: "addr \<Rightarrow> addr option \<Rightarrow> jsval \<Rightarrow> engine \<Rightarrow> addr option \<times> engine" where
  "make_fiber wip old element st =
     (case new_fiber wip old element st of
        None \<Rightarrow> (None, st)
      | Some f \<Rightarrow> (let (n, st1) = alloc f st in (Some n, st1)))"

text \<open>\<^verbatim>\<open>if (oldFiber && !sameType) { oldFiber.effectTag = 'DELETION'; deletions.push(oldFiber) }\<close>\<close>

definition mark_deletion :: "addr option \<Rightarrow> bool \<Rightarrow> engine \<Rightarrow> error + engine" where
  "mark_deletion old same st =
     (case old of None \<Rightarrow> Inr st
      | Some a \<Rightarrow>
          if same then Inr st
          else (case deletions st of None \<Rightarrow> Inl TypeError
                | Some ds \<Rightarrow>
                    Inr (st\<lparr>heap := (heap st)(a := (heap st a)\<lparr>effectTag := Some DELETION\<rparr>),
                            deletions := Some (ds @ [a])\<rparr>)))"

text \<open>
  \<^verbatim>\<open>if (index === 0) wipFiber.child = newFiber; else if (element) prevSibling.sibling = newFiber\<close>
\<close>

definition link_fiber :: "addr \<Rightarrow> cursor \<Rightarrow> jsval \<Rightarrow> addr option \<Rightarrow> engine \<Rightarrow> error + engine" where
  "link_fiber wip c element newFiber st =
     (if index c = 0 then
        Inr (st\<lparr>heap := (heap st)(wip := (heap st wip)\<lparr>child := newFiber\<rparr>)\<rparr>)
      else if truthy element then
        (case prevSibling c of None \<Rightarrow> Inl TypeError
         | Some p \<Rightarrow> Inr (st\<lparr>heap := (heap st)(p := (heap st p)\<lparr>sibling := newFiber\<rparr>)\<rparr>))
      else Inr st)"

text \<open>\<^verbatim>\<open>elements[index]\<close>: \<^verbatim>\<open>undefined\<close> past the end of the array.\<close>

definition element_at :: "jsval list \<Rightarrow> nat \<Rightarrow> jsval" where
  "element_at elements i = (if i < length elements then elements ! i else Undefined)"

text \<open>One pass through the body of the loop.\<close>

definition reconcile_iter :: "addr \<Rightarrow> jsval list \<Rightarrow> cursor \<Rightarrow> engine \<Rightarrow> error + cursor \<times> engine" where
  "reconcile_iter wip elements c st =
    (let element = element_at elements (index c);
         same = sameType st (oldFiber c) element;
         (newFiber, st1) = make_fiber wip (oldFiber c) element st
     in case mark_deletion (oldFiber c) same st1 of Inl e \<Rightarrow> Inl e
        | Inr st2 \<Rightarrow>
           (let old' = (case oldFiber c of None \<Rightarrow> None | Some a \<Rightarrow> sibling (heap st2 a))
            in case link_fiber wip c element newFiber st2 of Inl e \<Rightarrow> Inl e
               | Inr st3 \<Rightarrow>
                   Inr (\<lparr>index = Suc (index c), oldFiber = old', prevSibling = newFiber\<rparr>, st3)))"

text \<open>\<^verbatim>\<open>index < elements.length || oldFiber != null\<close>\<close>

definition reconcile_cond :: "jsval list \<Rightarrow> cursor \<Rightarrow> bool" where
  "reconcile_cond elements c = (index c < length elements \<or> oldFiber c \<noteq> None)"

fun reconcile_loop :: "nat \<Rightarrow> addr \<Rightarrow> jsval list \<Rightarrow> cursor \<Rightarrow> engine \<Rightarrow> error + cursor \<times> engine" where
  "reconcile_loop fuel wip elements c st =
     (if reconcile_cond elements c then
        (case fuel of 0 \<Rightarrow> Inl OutOfFuel
         | Suc n \<Rightarrow>
            (case reconcile_iter wip elements c st of Inl e \<Rightarrow> Inl e
             | Inr (c', st') \<Rightarrow> reconcile_loop n wip elements c' st'))
      else Inr (c, st))"

definition start_cursor :: "engine \<Rightarrow> addr \<Rightarrow> cursor" where
  "start_cursor st wip =
     \<lparr>index = 0,
      oldFiber = (case alternate (heap st wip) of None \<Rightarrow> None | Some a \<Rightarrow> child (heap st a)),
      prevSibling = None\<rparr>"

definition reconcileChildren :: "nat \<Rightarrow> addr \<Rightarrow> jsval list \<Rightarrow> engine \<Rightarrow> error + engine" where
  "reconcileChildren fuel wip elements st =
     (case reconcile_loop fuel wip elements (start_cursor st wip) st of Inl e \<Rightarrow> Inl e
      | Inr (c, st') \<Rightarrow> Inr st')"

section \<open>The state hook\<close>

text \<open>
  \<^verbatim>\<open>wipFiber.alternate && wipFiber.alternate.hooks && wipFiber.alternate.hooks[hookIndex]\<close>
\<close>

definition oldHook :: "engine \<Rightarrow> addr \<Rightarrow> haddr option" where
  "oldHook st w =
     (case alternate (heap st w) of None \<Rightarrow> None
      | Some a \<Rightarrow>
         (case hooks (heap st a) of None \<Rightarrow> None
          | Some hs \<Rightarrow>
             (case hookIndex st of None \<Rightarrow> None
              | Some i \<Rightarrow> if i < length hs then Some (hs ! i) else None)))"

text \<open>\<^verbatim>\<open>actions.forEach((action) => { hook.state = action(hook.state) })\<close>\<close>

definition drain :: "jsval \<Rightarrow> (jsval \<Rightarrow> jsval) list \<Rightarrow> jsval" where
  "drain s actions = foldl (\<lambda>s action. action s) s actions"

text \<open>
  \<^verbatim>\<open>useState\<close> returns the state and the update-request function; that closure is
  determined by the hook object it has captured, so it is given as the hook's address.
\<close>

definition useState :: "jsval \<Rightarrow> engine \<Rightarrow> error + (jsval \<times> haddr) \<times> engine" where
  "useState initial st =
    (case wipFiber st of None \<Rightarrow> Inl TypeError
     | Some w \<Rightarrow>
        (let old = oldHook st w;
             s0 = (case old of None \<Rightarrow> initial | Some h \<Rightarrow> state (hookHeap st h));
             actions = (case old of None \<Rightarrow> [] | Some h \<Rightarrow> queue (hookHeap st h));
             s = drain s0 actions;
             hk = freshHook st
         in case hooks (heap st w) of None \<Rightarrow> Inl TypeError
            | Some hs \<Rightarrow>
               Inr ((s, hk),
                    st\<lparr>hookHeap := (hookHeap st)(hk := \<lparr>state = s, queue = []\<rparr>),
                       freshHook := Suc hk,
                       heap := (heap st)(w := (heap st w)\<lparr>hooks := Some (hs @ [hk])\<rparr>),
                       hookIndex := Some (case hookIndex st of None \<Rightarrow> 1 | Some i \<Rightarrow> Suc i)\<rparr>)))"

text \<open>The update-request function of the hook at \<open>hk\<close>, called with \<open>action\<close>.\<close>

definition setState :: "haddr \<Rightarrow> (jsval \<Rightarrow> jsval) \<Rightarrow> engine \<Rightarrow> error + engine" where
  "setState hk action st =
    (let st1 = st\<lparr>hookHeap := (hookHeap st)(hk := (hookHeap st hk)
                      \<lparr>queue := queue (hookHeap st hk) @ [action]\<rparr>)\<rparr>
     in case currentRoot st1 of None \<Rightarrow> Inl TypeError
        | Some c \<Rightarrow>
           (let (r, st2) = alloc (blank\<lparr>domNode := domNode (heap st1 c),
                                        props := props (heap st1 c),
                                        alternate := Some c\<rparr>) st1
            in Inr (st2\<lparr>wipRoot := Some r, nextUnitOfWork := Some r, deletions := Some []\<rparr>)))"

section \<open>Render functions\<close>

text \<open>
  What a render function does with the engine while it runs: it asks for state slots,
  may call an update-request function, and returns its element.
\<close>

datatype prog =
    Return jsval
  | CallUseState jsval "jsval \<Rightarrow> haddr \<Rightarrow> prog"
  | CallSetState haddr "jsval \<Rightarrow> jsval" prog

type_synonym components = "nat \<Rightarrow> bag option \<Rightarrow> prog"

primrec run_prog :: "prog \<Rightarrow> engine \<Rightarrow> error + jsval \<times> engine" where
  "run_prog (Return v) = (\<lambda>st. Inr (v, st))"
| "run_prog (CallUseState initial k) =
     (\<lambda>st. case useState initial st of Inl e \<Rightarrow> Inl e
           | Inr ((s, hk), st') \<Rightarrow> run_prog (k s hk) st')"
| "run_prog (CallSetState hk action p) =
     (\<lambda>st. case setState hk action st of Inl e \<Rightarrow> Inl e
           | Inr st' \<Rightarrow> run_prog p st')"

section \<open>The unit of work\<close>

definition createDom :: "addr \<Rightarrow> engine \<Rightarrow> error + handle \<times> engine" where
  "createDom a st =
    (let h = freshNode st in
     case (case ftype (heap st a) of
             None \<Rightarrow> Inr (CreateElement h ''undefined'')
           | Some (Host t) \<Rightarrow>
               Inr (if t = ''TEXT_ELEMENT'' then CreateTextNode h else CreateElement h t)
           | Some (Comp c) \<Rightarrow> Inl HostError) of
       Inl e \<Rightarrow> Inl e
     | Inr mk \<Rightarrow>
        (case props (heap st a) of None \<Rightarrow> Inl TypeError
         | Some p \<Rightarrow>
            Inr (h, st\<lparr>freshNode := Suc h,
                       hostlog := hostlog st @ [mk] @ updateDom h [] p\<rparr>)))"

definition updateHostComponent :: "nat \<Rightarrow> addr \<Rightarrow> engine \<Rightarrow> error + engine" where
  "updateHostComponent fuel a st =
    (case (case domNode (heap st a) of Some d \<Rightarrow> Inr st
           | None \<Rightarrow>
              (case createDom a st of Inl e \<Rightarrow> Inl e
               | Inr (h, st1) \<Rightarrow>
                   Inr (st1\<lparr>heap := (heap st1)(a := (heap st1 a)\<lparr>domNode := Some h\<rparr>)\<rparr>))) of
       Inl e \<Rightarrow> Inl e
     | Inr st2 \<Rightarrow>
        (case props (heap st2 a) of None \<Rightarrow> Inl TypeError
         | Some p \<Rightarrow>
            (case get p ''children'' of
               Arr cs \<Rightarrow> reconcileChildren fuel a (flat cs) st2
             | _ \<Rightarrow> Inl TypeError)))"

text \<open>\<^verbatim>\<open>wipFiber = fiber; hookIndex = 0; wipFiber.hooks = []\<close>\<close>

definition entering :: "addr \<Rightarrow> engine \<Rightarrow> engine" where
  "entering a st = st\<lparr>wipFiber := Some a, hookIndex := Some 0,
                       heap := (heap st)(a := (heap st a)\<lparr>hooks := Some []\<rparr>)\<rparr>"

definition updateFunctionComponent ::
  "components \<Rightarrow> nat \<Rightarrow> addr \<Rightarrow> nat \<Rightarrow> engine \<Rightarrow> error + engine" where
  "updateFunctionComponent comps fuel a c st =
    (let st1 = entering a st
     in case run_prog (comps c (props (heap st1 a))) st1 of Inl e \<Rightarrow> Inl e
        | Inr (v, st2) \<Rightarrow> reconcileChildren fuel a [v] st2)"

text \<open>
  \<^verbatim>\<open>while (nextFiber) { if (nextFiber.sibling) return nextFiber.sibling; nextFiber = nextFiber.parent }\<close>
\<close>

fun next_sibling_up :: "nat \<Rightarrow> (addr \<Rightarrow> fiber) \<Rightarrow> addr option \<Rightarrow> error + addr option" where
  "next_sibling_up fuel h None = Inr None"
| "next_sibling_up 0 h (Some n) = Inl OutOfFuel"
| "next_sibling_up (Suc fuel) h (Some n) =
     (case sibling (h n) of Some s \<Rightarrow> Inr (Some s)
      | None \<Rightarrow> next_sibling_up fuel h (parent (h n)))"

definition performUnitOfWork ::
  "components \<Rightarrow> nat \<Rightarrow> addr \<Rightarrow> engine \<Rightarrow> error + addr option \<times> engine" where
  "performUnitOfWork comps fuel a st =
    (case (case ftype (heap st a) of
             Some (Comp c) \<Rightarrow> updateFunctionComponent comps fuel a c st
           | _ \<Rightarrow> updateHostComponent fuel a st) of
       Inl e \<Rightarrow> Inl e
     | Inr st1 \<Rightarrow>
        (case child (heap st1 a) of
           Some c \<Rightarrow> Inr (Some c, st1)
         | None \<Rightarrow>
            (case next_sibling_up fuel (heap st1) (Some a) of Inl e \<Rightarrow> Inl e
             | Inr n \<Rightarrow> Inr (n, st1))))"

section \<open>Commit\<close>

text \<open>
  \<^verbatim>\<open>let domParentFiber = fiber.parent; while (!domParentFiber.dom) domParentFiber = domParentFiber.parent\<close>,
  started at \<^verbatim>\<open>fiber.parent\<close>.
\<close>

fun domParentOf :: "nat \<Rightarrow> (addr \<Rightarrow> fiber) \<Rightarrow> addr option \<Rightarrow> error + handle" where
  "domParentOf fuel h None = Inl TypeError"
| "domParentOf 0 h (Some p) = Inl OutOfFuel"
| "domParentOf (Suc fuel) h (Some p) =
     (case domNode (h p) of Some d \<Rightarrow> Inr d
      | None \<Rightarrow> domParentOf fuel h (parent (h p)))"

fun commitDeletion :: "nat \<Rightarrow> (addr \<Rightarrow> fiber) \<Rightarrow> addr option \<Rightarrow> handle \<Rightarrow> error + hostop list" where
  "commitDeletion fuel h None domParent = Inl TypeError"
| "commitDeletion 0 h (Some a) domParent = Inl OutOfFuel"
| "commitDeletion (Suc fuel) h (Some a) domParent =
     (case domNode (h a) of Some d \<Rightarrow> Inr [RemoveChild domParent d]
      | None \<Rightarrow> commitDeletion fuel h (child (h a)) domParent)"

text \<open>The host calls of one fiber's own effect, given its host parent.\<close>

definition commitEffect :: "nat \<Rightarrow> (addr \<Rightarrow> fiber) \<Rightarrow> addr \<Rightarrow> handle \<Rightarrow> error + hostop list" where
  "commitEffect fuel h a domParent =
    (if effectTag (h a) = Some PLACEMENT \<and> domNode (h a) \<noteq> None then
       (case domNode (h a) of Some d \<Rightarrow> Inr [AppendChild domParent d] | None \<Rightarrow> Inr [])
     else if effectTag (h a) = Some UPDATE \<and> domNode (h a) \<noteq> None then
       (case (domNode (h a), alternate (h a)) of
          (Some d, Some alt) \<Rightarrow>
            (case (props (h alt), props (h a)) of
               (Some prevProps, Some nextProps) \<Rightarrow> Inr (updateDom d prevProps nextProps)
             | _ \<Rightarrow> Inl TypeError)
        | _ \<Rightarrow> Inl TypeError)
     else if effectTag (h a) = Some DELETION then commitDeletion fuel h (Some a) domParent
     else Inr [])"

fun commitWork :: "nat \<Rightarrow> (addr \<Rightarrow> fiber) \<Rightarrow> addr option \<Rightarrow> error + hostop list" where
  "commitWork fuel h None = Inr []"
| "commitWork 0 h (Some a) = Inl OutOfFuel"
| "commitWork (Suc fuel) h (Some a) =
     (case domParentOf (Suc fuel) h (parent (h a)) of Inl e \<Rightarrow> Inl e
      | Inr domParent \<Rightarrow>
         (case commitEffect (Suc fuel) h a domParent of Inl e \<Rightarrow> Inl e
          | Inr ops \<Rightarrow>
             (case commitWork fuel h (child (h a)) of Inl e \<Rightarrow> Inl e
              | Inr ops_child \<Rightarrow>
                 (case commitWork fuel h (sibling (h a)) of Inl e \<Rightarrow> Inl e
                  | Inr ops_sibling \<Rightarrow> Inr (ops @ ops_child @ ops_sibling)))))"

text \<open>\<^verbatim>\<open>deletions.forEach(commitWork)\<close>\<close>

fun commitDeletions :: "nat \<Rightarrow> (addr \<Rightarrow> fiber) \<Rightarrow> addr list \<Rightarrow> error + hostop list" where
  "commitDeletions fuel h [] = Inr []"
| "commitDeletions fuel h (d # ds) =
     (case commitWork fuel h (Some d) of Inl e \<Rightarrow> Inl e
      | Inr ops \<Rightarrow>
         (case commitDeletions fuel h ds of Inl e \<Rightarrow> Inl e
          | Inr ops' \<Rightarrow> Inr (ops @ ops')))"

definition commitRoot :: "nat \<Rightarrow> engine \<Rightarrow> error + engine" where
  "commitRoot fuel st =
    (case deletions st of None \<Rightarrow> Inl TypeError
     | Some ds \<Rightarrow>
        (case commitDeletions fuel (heap st) ds of Inl e \<Rightarrow> Inl e
         | Inr ops_deleted \<Rightarrow>
            (case wipRoot st of None \<Rightarrow> Inl TypeError
             | Some r \<Rightarrow>
                (case commitWork fuel (heap st) (child (heap st r)) of Inl e \<Rightarrow> Inl e
                 | Inr ops_wip \<Rightarrow>
                    Inr (st\<lparr>hostlog := hostlog st @ ops_deleted @ ops_wip,
                            currentRoot := Some r, wipRoot := None\<rparr>)))))"

section \<open>The work loop\<close>

text \<open>
  The loop of \<^verbatim>\<open>workLoop\<close>. The deadline is the list of the values that the successive
  calls of \<^verbatim>\<open>deadline.timeRemaining()\<close> return; when the list is used up the loop yields.
\<close>

fun work_units :: "components \<Rightarrow> nat \<Rightarrow> int list \<Rightarrow> engine \<Rightarrow> error + engine" where
  "work_units comps fuel deadline st =
    (case nextUnitOfWork st of None \<Rightarrow> Inr st
     | Some a \<Rightarrow>
        (case performUnitOfWork comps fuel a st of Inl e \<Rightarrow> Inl e
         | Inr (n, st1) \<Rightarrow>
            (let st2 = st1\<lparr>nextUnitOfWork := n\<rparr>
             in case deadline of [] \<Rightarrow> Inr st2
                | t # ts \<Rightarrow> if t < 1 then Inr st2 else work_units comps fuel ts st2)))"

definition workLoop :: "components \<Rightarrow> nat \<Rightarrow> int list \<Rightarrow> engine \<Rightarrow> error + engine" where
  "workLoop comps fuel deadline st =
    (case work_units comps fuel deadline st of Inl e \<Rightarrow> Inl e
     | Inr st1 \<Rightarrow>
        if nextUnitOfWork st1 = None \<and> wipRoot st1 \<noteq> None then commitRoot fuel st1
        else Inr st1)"

section \<open>Running the engine\<close>

text \<open>
  What happens to the engine from outside: client code calls \<^verbatim>\<open>render\<close>, the host calls
  \<^verbatim>\<open>workLoop\<close> with a deadline, an event handler calls an update-request function.
\<close>

datatype event =
    Render jsval handle
  | Idle "int list"
  | Update haddr "jsval \<Rightarrow> jsval"

fun step :: "components \<Rightarrow> nat \<Rightarrow> event \<Rightarrow> engine \<Rightarrow> error + engine" where
  "step comps fuel (Render element container) st = Inr (render element container st)"
| "step comps fuel (Idle deadline) st = workLoop comps fuel deadline st"
| "step comps fuel (Update hk action) st = setState hk action st"

fun run :: "components \<Rightarrow> nat \<Rightarrow> event list \<Rightarrow> engine \<Rightarrow> error + engine" where
  "run comps fuel [] st = Inr st"
| "run comps fuel (e # es) st =
     (case step comps fuel e st of Inl err \<Rightarrow> Inl err
      | Inr st' \<Rightarrow> run comps fuel es st')"

section \<open>A host tree\<close>

text \<open>
  The children of every host node. \<^verbatim>\<open>appendChild\<close> moves a node that already has a
  parent; \<^verbatim>\<open>removeChild\<close> throws when the node is not a child of the parent.
\<close>

type_synonym hosttree = "handle \<Rightarrow> handle list"

fun host_apply :: "hostop \<Rightarrow> hosttree \<Rightarrow> error + hosttree" where
  "host_apply (AppendChild p c) t =
     Inr (\<lambda>n. if n = p then remove1 c (t n) @ [c] else remove1 c (t n))"
| "host_apply (RemoveChild p c) t =
     (if c \<in> set (t p) then Inr (t(p := remove1 c (t p))) else Inl HostError)"
| "host_apply _ t = Inr t"

fun host_run :: "hostop list \<Rightarrow> hosttree \<Rightarrow> error + hosttree" where
  "host_run [] t = Inr t"
| "host_run (x # xs) t =
     (case host_apply x t of Inl e \<Rightarrow> Inl e | Inr t' \<Rightarrow> host_run xs t')"

section \<open>Auxiliary notions for the properties\<close>


text \<open>
  The fibers met from \<open>start\<close> by following the \<^verbatim>\<open>sibling\<close> links until there is
  none: \<open>sib_chain h start as\<close> holds when they are the list \<open>as\<close>.
\<close>

fun sib_chain :: "(addr \<Rightarrow> fiber) \<Rightarrow> addr option \<Rightarrow> addr list \<Rightarrow> bool" where
  "sib_chain h None as = (as = [])"
| "sib_chain h (Some a) [] = False"
| "sib_chain h (Some a) (b # bs) = (a = b \<and> sib_chain h (sibling (h a)) bs)"

text \<open>
  The situation of the reconciliation loop at the head of an iteration, when it was
  started by \<^verbatim>\<open>reconcileChildren\<close> on truthy elements: the old fibers still to visit are
  \<open>rest\<close>, all allocated below \<open>F\<close>; the previous new fiber, if any, was allocated at
  \<open>F\<close> or later; the deletions list exists.
\<close>

definition loop_inv :: "nat \<Rightarrow> jsval list \<Rightarrow> cursor \<Rightarrow> engine \<Rightarrow> addr list \<Rightarrow> bool" where
  "loop_inv F elements c s rest \<longleftrightarrow>
     sib_chain (heap s) (oldFiber c) rest \<and> (\<forall>a\<in>set rest. a < F) \<and> F \<le> fresh s
     \<and> (\<forall>p. prevSibling c = Some p \<longrightarrow> F \<le> p)
     \<and> (0 < index c \<and> index c < length elements \<longrightarrow> prevSibling c \<noteq> None)
     \<and> (\<forall>e\<in>set elements. truthy e) \<and> deletions s \<noteq> None"

text \<open>The body of the reconciliation loop run \<open>k\<close> times, whatever its condition says.\<close>

fun reconcile_passes ::
  "nat \<Rightarrow> addr \<Rightarrow> jsval list \<Rightarrow> cursor \<Rightarrow> engine \<Rightarrow> error + cursor \<times> engine" where
  "reconcile_passes 0 wip elements c st = Inr (c, st)"
| "reconcile_passes (Suc k) wip elements c st =
     (case reconcile_iter wip elements c st of Inl e \<Rightarrow> Inl e
      | Inr (c', st') \<Rightarrow> reconcile_passes k wip elements c' st')"


text \<open>
  From \<open>s\<close> to \<open>s'\<close> the store has only grown, and each root pointer of \<open>s'\<close> is a root
  pointer of \<open>s\<close> or a fiber allocated since.
\<close>

definition grows :: "engine \<Rightarrow> engine \<Rightarrow> bool" where
  "grows s s' \<longleftrightarrow>
     fresh s \<le> fresh s'
   \<and> (\<forall>r. wipRoot s' = Some r \<longrightarrow> wipRoot s = Some r \<or> fresh s \<le> r)
   \<and> (\<forall>r. currentRoot s' = Some r \<longrightarrow>
         currentRoot s = Some r \<or> wipRoot s = Some r \<or> fresh s \<le> r)"



text \<open>
  Client code for the examples: the update function \<^verbatim>\<open>(n) => n + 1\<close> on numbers, and
  three render functions. Number 0 renders an empty \<^verbatim>\<open>div\<close>; number 1 keeps a counter
  in a state slot and renders it in a \<^verbatim>\<open>span\<close>; number 2 does the same and calls its
  update-request function while it renders.
\<close>

definition plus_one :: "jsval \<Rightarrow> jsval" where
  "plus_one v = (case v of Num n \<Rightarrow> Num (n + 1) | _ \<Rightarrow> Undefined)"

definition demo :: components where
  "demo n p =
    (if n = 0 then Return (createElement (Host ''div'') None [])
     else if n = 1 then
       CallUseState (Num 0) (\<lambda>s hk. Return (createElement (Host ''span'') None [s]))
     else
       CallUseState (Num 0)
         (\<lambda>s hk. CallSetState hk plus_one (Return (createElement (Host ''span'') None [s]))))"

text \<open>More client code: a list item holding a text, and a list of such items.\<close>

definition item :: "string \<Rightarrow> jsval" where
  "item s = createElement (Host ''li'') None [Str s]"

definition listing :: "string list \<Rightarrow> jsval" where
  "listing ss = createElement (Host ''ul'') None (map item ss)"

text \<open>The engine after a list of events, started from the initial state.\<close>

definition after :: "event list \<Rightarrow> engine" where
  "after evs = (case run demo 50 evs init of Inr st \<Rightarrow> st | Inl e \<Rightarrow> init)"

text \<open>
  The engine after a list of events and then the loop of one more \<^verbatim>\<open>workLoop\<close> call,
  stopped before that call decides whether to commit.
\<close>

definition working :: "event list \<Rightarrow> int list \<Rightarrow> engine" where
  "working evs deadline =
     (case work_units demo 50 deadline (after evs) of Inr st \<Rightarrow> st | Inl e \<Rightarrow> init)"

section \<open>Evaluating the engine on examples\<close>

text \<open>The two loops are unfolded on request only.\<close>

declare reconcile_loop.simps [simp del] work_units.simps [simp del]

lemma next_sibling_up_numeral:
  "next_sibling_up (numeral k) h (Some n) =
     (case sibling (h n) of Some s \<Rightarrow> Inr (Some s)
      | None \<Rightarrow> next_sibling_up (pred_numeral k) h (parent (h n)))"
  by (simp add: numeral_eq_Suc)

lemma domParentOf_numeral:
  "domParentOf (numeral k) h (Some p) =
     (case domNode (h p) of Some d \<Rightarrow> Inr d
      | None \<Rightarrow> domParentOf (pred_numeral k) h (parent (h p)))"
  by (simp add: numeral_eq_Suc)

lemma commitDeletion_numeral:
  "commitDeletion (numeral k) h (Some a) dp =
     (case domNode (h a) of Some d \<Rightarrow> Inr [RemoveChild dp d]
      | None \<Rightarrow> commitDeletion (pred_numeral k) h (child (h a)) dp)"
  by (simp add: numeral_eq_Suc)

lemma commitWork_numeral:
  "commitWork (numeral k) h (Some a) =
     (case domParentOf (numeral k) h (parent (h a)) of Inl e \<Rightarrow> Inl e
      | Inr domParent \<Rightarrow>
         (case commitEffect (numeral k) h a domParent of Inl e \<Rightarrow> Inl e
          | Inr ops \<Rightarrow>
             (case commitWork (pred_numeral k) h (child (h a)) of Inl e \<Rightarrow> Inl e
              | Inr ops_child \<Rightarrow>
                 (case commitWork (pred_numeral k) h (sibling (h a)) of Inl e \<Rightarrow> Inl e
                  | Inr ops_sibling \<Rightarrow> Inr (ops @ ops_child @ ops_sibling)))))"
  unfolding numeral_eq_Suc by (rule commitWork.simps(3))

lemmas engine_defs = after_def working_def demo_def item_def listing_def plus_one_def init_def render_def alloc_def blank_def
  createElement_def createTextElement_def normalize_child_def spread_def
  workLoop_def performUnitOfWork_def updateHostComponent_def updateFunctionComponent_def
  entering_def createDom_def updateDom_def unbind_step_def clear_step_def set_step_def
  bind_step_def isNew_def isGone_def isProperty_def isEvent_def has_def keys_def get_def
  reconcileChildren_def start_cursor_def reconcile_cond_def reconcile_iter_def element_at_def
  make_fiber_def new_fiber_def sameType_def mark_deletion_def link_fiber_def
  useState_def setState_def oldHook_def drain_def
  commitRoot_def commitEffect_def Let_def
  next_sibling_up_numeral domParentOf_numeral commitDeletion_numeral commitWork_numeral
  reconcile_loop.simps work_units.simps

section \<open>createElement in the two copies\<close>





section \<open>The property diff\<close>










section \<open>The update-request function\<close>

lemma setState_cases:
  "setState hk action st =
     (case currentRoot st of None \<Rightarrow> Inl TypeError
      | Some c \<Rightarrow>
          Inr (st\<lparr>hookHeap := (hookHeap st)(hk := (hookHeap st hk)
                     \<lparr>queue := queue (hookHeap st hk) @ [action]\<rparr>),
                  heap := (heap st)(fresh st := blank\<lparr>domNode := domNode (heap st c),
                            props := props (heap st c), alternate := Some c\<rparr>),
                  fresh := Suc (fresh st),
                  wipRoot := Some (fresh st), nextUnitOfWork := Some (fresh st),
                  deletions := Some []\<rparr>))"
  by (simp add: setState_def alloc_def Let_def split: option.splits)

text \<open>
  C9: the update-request function fails with a \<^verbatim>\<open>TypeError\<close> when no root has been
  committed yet (\<^verbatim>\<open>currentRoot\<close> is \<^verbatim>\<open>null\<close>), and returns normally whenever a
  committed root exists.
\<close>

theorem setState_needs_committed_root:
  "(currentRoot st = None \<longrightarrow> setState hk action st = Inl TypeError)
   \<and> (currentRoot st \<noteq> None \<longrightarrow> (\<exists>st'. setState hk action st = Inr st'))"
  by (auto simp: setState_cases)

text \<open>
  The failing call pattern exists: after the first render request and two units of work
  the counter's slot 0 is there and nothing is committed, so its update-request function
  throws; a render function that calls it while rendering makes the first work loop
  throw. After the first commit the call returns.
\<close>

theorem setState_needs_committed_root_witness:
  "currentRoot (after [Render (createElement (Comp 1) None []) 0, Idle [5, 0]]) = None
   \<and> hooks (heap (after [Render (createElement (Comp 1) None []) 0, Idle [5, 0]]) 1) = Some [0]
   \<and> setState 0 plus_one (after [Render (createElement (Comp 1) None []) 0, Idle [5, 0]])
       = Inl TypeError
   \<and> run demo 50 [Render (createElement (Comp 2) None []) 0, Idle [5, 5, 5]] init
       = Inl TypeError
   \<and> currentRoot (after [Render (createElement (Comp 1) None []) 0, Idle [5, 5, 5, 5]]) = Some 0
   \<and> (\<exists>st'. setState 0 plus_one
               (after [Render (createElement (Comp 1) None []) 0, Idle [5, 5, 5, 5]]) = Inr st')"
proof -
  let ?pre = "after [Render (createElement (Comp 1) None []) 0, Idle [5, 0]]"
  let ?post = "after [Render (createElement (Comp 1) None []) 0, Idle [5, 5, 5, 5]]"
  have a: "currentRoot ?pre = None" by code_simp
  have b: "hooks (heap ?pre 1) = Some [0]" by code_simp
  have c: "isl (run demo 50 [Render (createElement (Comp 2) None []) 0, Idle [5, 5, 5]] init)
           \<and> projl (run demo 50 [Render (createElement (Comp 2) None []) 0, Idle [5, 5, 5]] init)
               = TypeError"
    by code_simp
  have d: "currentRoot ?post = Some 0" by code_simp
  show ?thesis
    using a b c d setState_needs_committed_root [of ?pre 0 plus_one]
      setState_needs_committed_root [of ?post 0 plus_one]
    by (auto simp: isl_def)
qed

section \<open>The state hook\<close>




section \<open>Commit\<close>

lemma commitDeletion_single:
  "commitDeletion fuel h a dp = Inr rm \<Longrightarrow> \<exists>x. rm = [RemoveChild dp x]"
  by (induction fuel h a dp rule: commitDeletion.induct) (auto split: option.splits)

lemma commitDeletions_member:
  "commitDeletions fuel h ds = Inr ops \<Longrightarrow> d \<in> set ds \<Longrightarrow>
     \<exists>ops_d. commitWork fuel h (Some d) = Inr ops_d \<and> set ops_d \<subseteq> set ops"
proof (induction ds arbitrary: ops)
  case Nil
  then show ?case by simp
next
  case (Cons x xs)
  from Cons.prems(1) obtain o1 o2 where 1: "commitWork fuel h (Some x) = Inr o1"
    and 2: "commitDeletions fuel h xs = Inr o2" and 3: "ops = o1 @ o2"
    by (auto split: sum.splits)
  show ?case
  proof (cases "d = x")
    case True
    with 1 3 show ?thesis by auto
  next
    case False
    with Cons.prems(2) have "d \<in> set xs" by simp
    from Cons.IH [OF 2 this] 3 show ?thesis by auto
  qed
qed

lemma commitWork_deletion:
  assumes "commitWork fuel h (Some d) = Inr ops" and "effectTag (h d) = Some DELETION"
  shows "\<exists>dp x. domParentOf fuel h (parent (h d)) = Inr dp
           \<and> commitDeletion fuel h (Some d) dp = Inr [RemoveChild dp x]
           \<and> RemoveChild dp x \<in> set ops"
proof (cases fuel)
  case 0
  with assms show ?thesis by simp
next
  case (Suc n)
  with assms obtain dp rm where dp: "domParentOf fuel h (parent (h d)) = Inr dp"
    and rm: "commitEffect fuel h d dp = Inr rm" and sub: "set rm \<subseteq> set ops"
    by (auto split: sum.splits)
  from rm assms(2) have "commitDeletion fuel h (Some d) dp = Inr rm"
    by (simp add: commitEffect_def)
  with commitDeletion_single [of fuel h "Some d" dp rm] dp sub show ?thesis by auto
qed

text \<open>
  C4: a commit that returns has first run \<^verbatim>\<open>commitWork\<close> on every fiber of the
  pending-deletions list and only then on the child of the work-in-progress root: the
  host calls it adds are those of the deletions followed by those of the work-in-progress
  tree, and for every listed fiber tagged \<^verbatim>\<open>DELETION\<close> the removal of its host node
  from its host parent is among the former.
\<close>

theorem commitRoot_deletions_first:
  assumes "commitRoot fuel st = Inr st'"
  shows "\<exists>ds r ops_deleted ops_wip.
     deletions st = Some ds \<and> wipRoot st = Some r
     \<and> commitDeletions fuel (heap st) ds = Inr ops_deleted
     \<and> commitWork fuel (heap st) (child (heap st r)) = Inr ops_wip
     \<and> hostlog st' = hostlog st @ ops_deleted @ ops_wip
     \<and> heap st' = heap st
     \<and> (\<forall>d\<in>set ds. effectTag (heap st d) = Some DELETION \<longrightarrow>
           (\<exists>dp x. domParentOf fuel (heap st) (parent (heap st d)) = Inr dp
              \<and> commitDeletion fuel (heap st) (Some d) dp = Inr [RemoveChild dp x]
              \<and> RemoveChild dp x \<in> set ops_deleted))"
proof -
  from assms obtain ds r ops_deleted ops_wip where
    a: "deletions st = Some ds" "wipRoot st = Some r"
       "commitDeletions fuel (heap st) ds = Inr ops_deleted"
       "commitWork fuel (heap st) (child (heap st r)) = Inr ops_wip"
       "st' = st\<lparr>hostlog := hostlog st @ ops_deleted @ ops_wip,
                  currentRoot := Some r, wipRoot := None\<rparr>"
    by (auto simp: commitRoot_def split: option.splits sum.splits)
  have "\<exists>dp x. domParentOf fuel (heap st) (parent (heap st d)) = Inr dp
              \<and> commitDeletion fuel (heap st) (Some d) dp = Inr [RemoveChild dp x]
              \<and> RemoveChild dp x \<in> set ops_deleted"
    if d: "d \<in> set ds" and e: "effectTag (heap st d) = Some DELETION" for d
  proof -
    from commitDeletions_member [OF a(3) d] obtain ops_d
      where w: "commitWork fuel (heap st) (Some d) = Inr ops_d" and s: "set ops_d \<subseteq> set ops_deleted"
      by blast
    from commitWork_deletion [of fuel "heap st" d ops_d, OF w e] s show ?thesis by blast
  qed
  with a show ?thesis by auto
qed

text \<open>
  A render function replaced by a \<^verbatim>\<open>p\<close> element: fiber 1 is on the deletions list,
  its host calls come before the placement of the new node 2.
\<close>

theorem commitRoot_deletions_first_witness:
  "deletions (working [Render (createElement (Comp 0) None []) 0, Idle [5, 5, 5],
                       Render (createElement (Host ''p'') None []) 0] [5, 5, 5]) = Some [1]
   \<and> effectTag (heap (working [Render (createElement (Comp 0) None []) 0, Idle [5, 5, 5],
                       Render (createElement (Host ''p'') None []) 0] [5, 5, 5]) 1) = Some DELETION
   \<and> commitDeletions 50 (heap (working [Render (createElement (Comp 0) None []) 0, Idle [5, 5, 5],
                       Render (createElement (Host ''p'') None []) 0] [5, 5, 5])) [1]
        = Inr [RemoveChild 0 1, AppendChild 0 1]
   \<and> (\<exists>st'. commitRoot 50 (working [Render (createElement (Comp 0) None []) 0, Idle [5, 5, 5],
                       Render (createElement (Host ''p'') None []) 0] [5, 5, 5]) = Inr st'
          \<and> hostlog st' = hostlog (working [Render (createElement (Comp 0) None []) 0, Idle [5, 5, 5],
                       Render (createElement (Host ''p'') None []) 0] [5, 5, 5])
                 @ [RemoveChild 0 1, AppendChild 0 1] @ [AppendChild 0 2])"
proof -
  let ?st = "working [Render (createElement (Comp 0) None []) 0, Idle [5, 5, 5],
                       Render (createElement (Host ''p'') None []) 0] [5, 5, 5]"
  have a: "deletions ?st = Some [1]" by code_simp
  have b: "effectTag (heap ?st 1) = Some DELETION" by code_simp
  have c: "commitDeletions 50 (heap ?st) [1] = Inr [RemoveChild 0 1, AppendChild 0 1]"
    by code_simp
  have d: "wipRoot ?st = Some 3" by code_simp
  have e: "commitWork 50 (heap ?st) (child (heap ?st 3)) = Inr [AppendChild 0 2]"
    by code_simp
  have "\<not> isl (commitRoot 50 ?st)" by code_simp
  then obtain st' where f: "commitRoot 50 ?st = Inr st'"
    by (cases "commitRoot 50 ?st") auto
  from commitRoot_deletions_first [OF f] a c d e
  have "hostlog st' = hostlog ?st @ [RemoveChild 0 1, AppendChild 0 1] @ [AppendChild 0 2]"
    by auto
  with a b c f show ?thesis by blast
qed


lemma commitDeletion_descends:
  assumes "domNode (h a) = None" and "child (h a) = Some c" and "domNode (h c) = Some x"
  shows "commitDeletion (Suc (Suc fuel)) h (Some a) dp = Inr [RemoveChild dp x]"
  using assms by simp

text \<open>
  C6 fails on the code. First a render function that renders a \<^verbatim>\<open>div\<close> is rendered
  into the container 0 and committed, then a \<^verbatim>\<open>p\<close> element is rendered into the same
  container and committed. The fiber 1 of the render function has no host handle and is
  tagged \<^verbatim>\<open>DELETION\<close>; its child, fiber 2, owns the host node 1. The commit removes
  node 1 from the container, and then, going on into the child of the deleted fiber, whose
  tag is still \<^verbatim>\<open>PLACEMENT\<close>, appends node 1 to the container again: after the commit
  the container holds the nodes 1 and 2.
\<close>

theorem deleted_component_output_stays:
  "ftype (heap (after [Render (createElement (Comp 0) None []) 0, Idle [5, 5, 5],
                       Render (createElement (Host ''p'') None []) 0, Idle [5, 5, 5]]) 1)
     = Some (Comp 0)
   \<and> domNode (heap (after [Render (createElement (Comp 0) None []) 0, Idle [5, 5, 5],
                       Render (createElement (Host ''p'') None []) 0, Idle [5, 5, 5]]) 1) = None
   \<and> effectTag (heap (after [Render (createElement (Comp 0) None []) 0, Idle [5, 5, 5],
                       Render (createElement (Host ''p'') None []) 0, Idle [5, 5, 5]]) 1)
       = Some DELETION
   \<and> deletions (after [Render (createElement (Comp 0) None []) 0, Idle [5, 5, 5],
                       Render (createElement (Host ''p'') None []) 0, Idle [5, 5, 5]]) = Some [1]
   \<and> child (heap (after [Render (createElement (Comp 0) None []) 0, Idle [5, 5, 5],
                       Render (createElement (Host ''p'') None []) 0, Idle [5, 5, 5]]) 1) = Some 2
   \<and> domNode (heap (after [Render (createElement (Comp 0) None []) 0, Idle [5, 5, 5],
                       Render (createElement (Host ''p'') None []) 0, Idle [5, 5, 5]]) 2) = Some 1
   \<and> effectTag (heap (after [Render (createElement (Comp 0) None []) 0, Idle [5, 5, 5],
                       Render (createElement (Host ''p'') None []) 0, Idle [5, 5, 5]]) 2)
       = Some PLACEMENT
   \<and> hostlog (after [Render (createElement (Comp 0) None []) 0, Idle [5, 5, 5],
                       Render (createElement (Host ''p'') None []) 0, Idle [5, 5, 5]])
       = [CreateElement 1 ''div'', AppendChild 0 1, CreateElement 2 ''p'',
          RemoveChild 0 1, AppendChild 0 1, AppendChild 0 2]
   \<and> map_sum id (\<lambda>t. t 0)
         (host_run (hostlog (after [Render (createElement (Comp 0) None []) 0, Idle [5, 5, 5],
                       Render (createElement (Host ''p'') None []) 0, Idle [5, 5, 5]])) (\<lambda>n. []))
       = Inr [1, 2]"
  by code_simp

section \<open>One pass of the reconciliation loop\<close>

lemma new_fiber_None: "new_fiber wip old el s = None \<longleftrightarrow> \<not> truthy el"
  by (auto simp: new_fiber_def sameType_def split: option.splits bool.splits)

lemma new_fiber_Some:
  assumes "new_fiber wip old el s = Some f"
  shows "truthy el" and "parent f = Some wip" and "child f = None" and "sibling f = None"
    and "hooks f = None" and "props f = el_props el"
    and "sameType s old el \<Longrightarrow> effectTag f = Some UPDATE \<and> alternate f = old
           \<and> (\<forall>a. old = Some a \<longrightarrow> ftype f = ftype (heap s a) \<and> domNode f = domNode (heap s a))"
    and "\<not> sameType s old el \<Longrightarrow> effectTag f = Some PLACEMENT \<and> alternate f = None
           \<and> ftype f = el_type el \<and> domNode f = None"
  using assms
  by (auto simp: new_fiber_def sameType_def blank_def split: option.splits bool.splits if_splits)

lemma make_fiber_eq:
  "make_fiber wip old el s =
     (case new_fiber wip old el s of None \<Rightarrow> (None, s)
      | Some f \<Rightarrow> (Some (fresh s), s\<lparr>heap := (heap s)(fresh s := f), fresh := Suc (fresh s)\<rparr>))"
  by (simp add: make_fiber_def alloc_def split: option.splits)

lemma mark_deletion_eq:
  assumes "mark_deletion old same s = Inr s2"
  shows "(old = None \<or> same) \<and> s2 = s
       \<or> (\<exists>a ds. old = Some a \<and> \<not> same \<and> deletions s = Some ds
            \<and> s2 = s\<lparr>heap := (heap s)(a := (heap s a)\<lparr>effectTag := Some DELETION\<rparr>),
                      deletions := Some (ds @ [a])\<rparr>)"
  using assms by (auto simp: mark_deletion_def split: option.splits if_splits)

lemma link_fiber_eq:
  assumes "link_fiber wip c el nf s = Inr s'"
  shows "index c = 0 \<and> s' = s\<lparr>heap := (heap s)(wip := (heap s wip)\<lparr>child := nf\<rparr>)\<rparr>
       \<or> (\<exists>p. index c \<noteq> 0 \<and> truthy el \<and> prevSibling c = Some p
            \<and> s' = s\<lparr>heap := (heap s)(p := (heap s p)\<lparr>sibling := nf\<rparr>)\<rparr>)
       \<or> index c \<noteq> 0 \<and> \<not> truthy el \<and> s' = s"
  using assms by (auto simp: link_fiber_def split: option.splits if_splits)

text \<open>What one pass does, put together from its three steps.\<close>

lemma reconcile_iter_result:
  assumes "reconcile_iter wip els c s = Inr (c', s')"
  obtains nf s1 s2 where
    "nf = (if truthy (element_at els (index c)) then Some (fresh s) else None)"
    "new_fiber wip (oldFiber c) (element_at els (index c)) s = None \<and> s1 = s
     \<or> (\<exists>f. new_fiber wip (oldFiber c) (element_at els (index c)) s = Some f
           \<and> s1 = s\<lparr>heap := (heap s)(fresh s := f), fresh := Suc (fresh s)\<rparr>)"
    "(oldFiber c = None \<or> sameType s (oldFiber c) (element_at els (index c))) \<and> s2 = s1
       \<or> (\<exists>a ds. oldFiber c = Some a \<and> \<not> sameType s (oldFiber c) (element_at els (index c))
            \<and> deletions s1 = Some ds
            \<and> s2 = s1\<lparr>heap := (heap s1)(a := (heap s1 a)\<lparr>effectTag := Some DELETION\<rparr>),
                       deletions := Some (ds @ [a])\<rparr>)"
    "index c = 0 \<and> s' = s2\<lparr>heap := (heap s2)(wip := (heap s2 wip)\<lparr>child := nf\<rparr>)\<rparr>
       \<or> (\<exists>p. index c \<noteq> 0 \<and> truthy (element_at els (index c)) \<and> prevSibling c = Some p
            \<and> s' = s2\<lparr>heap := (heap s2)(p := (heap s2 p)\<lparr>sibling := nf\<rparr>)\<rparr>)
       \<or> index c \<noteq> 0 \<and> \<not> truthy (element_at els (index c)) \<and> s' = s2"
    "c' = \<lparr>index = Suc (index c),
           oldFiber = (case oldFiber c of None \<Rightarrow> None | Some a \<Rightarrow> sibling (heap s2 a)),
           prevSibling = nf\<rparr>"
proof -
  let ?el = "element_at els (index c)"
  from assms obtain nf s1 s2 where p:
    "make_fiber wip (oldFiber c) ?el s = (nf, s1)"
    "mark_deletion (oldFiber c) (sameType s (oldFiber c) ?el) s1 = Inr s2"
    "link_fiber wip c ?el nf s2 = Inr s'"
    "c' = \<lparr>index = Suc (index c),
           oldFiber = (case oldFiber c of None \<Rightarrow> None | Some a \<Rightarrow> sibling (heap s2 a)),
           prevSibling = nf\<rparr>"
    by (auto simp: reconcile_iter_def Let_def split: prod.splits sum.splits)
  have 1: "nf = (if truthy ?el then Some (fresh s) else None)"
    using p(1) new_fiber_None [of wip "oldFiber c" ?el s]
    by (auto simp: make_fiber_eq split: option.splits)
  have 2: "new_fiber wip (oldFiber c) ?el s = None \<and> s1 = s
     \<or> (\<exists>f. new_fiber wip (oldFiber c) ?el s = Some f
           \<and> s1 = s\<lparr>heap := (heap s)(fresh s := f), fresh := Suc (fresh s)\<rparr>)"
    using p(1) by (auto simp: make_fiber_eq split: option.splits)
  show ?thesis
    by (rule that [OF 1 2 mark_deletion_eq [OF p(2)] link_fiber_eq [OF p(3)] p(4)])
qed

lemma reconcile_iter_cursor:
  assumes "reconcile_iter wip els c s = Inr (c', s')"
  shows "index c' = Suc (index c)"
    and "prevSibling c' = (if truthy (element_at els (index c)) then Some (fresh s) else None)"
    and "fresh s' = (if truthy (element_at els (index c)) then Suc (fresh s) else fresh s)"
    and "\<forall>a. oldFiber c = Some a \<longrightarrow> a < fresh s \<Longrightarrow>
           oldFiber c' = (case oldFiber c of None \<Rightarrow> None | Some a \<Rightarrow> sibling (heap s a))"
proof -
  from assms obtain nf s1 s2 where r:
    "nf = (if truthy (element_at els (index c)) then Some (fresh s) else None)"
    "new_fiber wip (oldFiber c) (element_at els (index c)) s = None \<and> s1 = s
     \<or> (\<exists>f. new_fiber wip (oldFiber c) (element_at els (index c)) s = Some f
           \<and> s1 = s\<lparr>heap := (heap s)(fresh s := f), fresh := Suc (fresh s)\<rparr>)"
    "(oldFiber c = None \<or> sameType s (oldFiber c) (element_at els (index c))) \<and> s2 = s1
       \<or> (\<exists>a ds. oldFiber c = Some a \<and> \<not> sameType s (oldFiber c) (element_at els (index c))
            \<and> deletions s1 = Some ds
            \<and> s2 = s1\<lparr>heap := (heap s1)(a := (heap s1 a)\<lparr>effectTag := Some DELETION\<rparr>),
                       deletions := Some (ds @ [a])\<rparr>)"
    "index c = 0 \<and> s' = s2\<lparr>heap := (heap s2)(wip := (heap s2 wip)\<lparr>child := nf\<rparr>)\<rparr>
       \<or> (\<exists>p. index c \<noteq> 0 \<and> truthy (element_at els (index c)) \<and> prevSibling c = Some p
            \<and> s' = s2\<lparr>heap := (heap s2)(p := (heap s2 p)\<lparr>sibling := nf\<rparr>)\<rparr>)
       \<or> index c \<noteq> 0 \<and> \<not> truthy (element_at els (index c)) \<and> s' = s2"
    "c' = \<lparr>index = Suc (index c),
           oldFiber = (case oldFiber c of None \<Rightarrow> None | Some a \<Rightarrow> sibling (heap s2 a)),
           prevSibling = nf\<rparr>"
    by (rule reconcile_iter_result)
  have f1: "fresh s1 = (if truthy (element_at els (index c)) then Suc (fresh s) else fresh s)"
    using r(2) new_fiber_None [of wip "oldFiber c" "element_at els (index c)" s] by auto
  have f2: "fresh s2 = fresh s1" using r(3) by auto
  have f3: "fresh s' = fresh s2" using r(4) by auto
  show "index c' = Suc (index c)" using r(5) by simp
  show "prevSibling c' = (if truthy (element_at els (index c)) then Some (fresh s) else None)"
    using r(1,5) by simp
  show "fresh s' = (if truthy (element_at els (index c)) then Suc (fresh s) else fresh s)"
    using f1 f2 f3 by simp
  show "oldFiber c' = (case oldFiber c of None \<Rightarrow> None | Some a \<Rightarrow> sibling (heap s a))"
    if "\<forall>a. oldFiber c = Some a \<longrightarrow> a < fresh s"
  proof (cases "oldFiber c")
    case None
    then show ?thesis using r(5) by simp
  next
    case (Some a)
    with that have "a < fresh s" by simp
    then have "sibling (heap s1 a) = sibling (heap s a)" using r(2) by auto
    moreover have "sibling (heap s2 a) = sibling (heap s1 a)" using r(3) by auto
    ultimately show ?thesis using r(5) Some by simp
  qed
qed


lemma reconcile_iter_frame:
  assumes "reconcile_iter wip els c s = Inr (c', s')" and "b < fresh s"
  shows "ftype (heap s' b) = ftype (heap s b) \<and> props (heap s' b) = props (heap s b)
    \<and> domNode (heap s' b) = domNode (heap s b) \<and> parent (heap s' b) = parent (heap s b)
    \<and> alternate (heap s' b) = alternate (heap s b) \<and> hooks (heap s' b) = hooks (heap s b)
    \<and> (prevSibling c \<noteq> Some b \<longrightarrow> sibling (heap s' b) = sibling (heap s b))
    \<and> (oldFiber c \<noteq> Some b \<longrightarrow> effectTag (heap s' b) = effectTag (heap s b))
    \<and> (wip \<noteq> b \<longrightarrow> child (heap s' b) = child (heap s b))"
  using assms
  by (elim reconcile_iter_result) auto

lemma reconcile_iter_globals:
  assumes "reconcile_iter wip els c s = Inr (c', s')"
  shows "fresh s \<le> fresh s' \<and> hookHeap s' = hookHeap s \<and> freshHook s' = freshHook s
    \<and> freshNode s' = freshNode s \<and> hostlog s' = hostlog s
    \<and> nextUnitOfWork s' = nextUnitOfWork s \<and> currentRoot s' = currentRoot s
    \<and> wipRoot s' = wipRoot s \<and> wipFiber s' = wipFiber s \<and> hookIndex s' = hookIndex s
    \<and> (deletions s \<noteq> None \<longrightarrow> deletions s' \<noteq> None)"
  using assms
  by (elim reconcile_iter_result) auto

lemma reconcile_iter_succeeds:
  assumes "oldFiber c \<noteq> None \<longrightarrow> deletions s \<noteq> None"
    and "index c \<noteq> 0 \<and> truthy (element_at els (index c)) \<longrightarrow> prevSibling c \<noteq> None"
  shows "\<exists>c' s'. reconcile_iter wip els c s = Inr (c', s')"
proof -
  let ?el = "element_at els (index c)"
  obtain nf s1 where 1: "make_fiber wip (oldFiber c) ?el s = (nf, s1)"
    by (cases "make_fiber wip (oldFiber c) ?el s")
  then have d: "deletions s1 = deletions s"
    by (auto simp: make_fiber_eq split: option.splits)
  have "\<exists>s2. mark_deletion (oldFiber c) (sameType s (oldFiber c) ?el) s1 = Inr s2"
    using assms(1) d by (auto simp: mark_deletion_def split: option.splits)
  then obtain s2 where 2: "mark_deletion (oldFiber c) (sameType s (oldFiber c) ?el) s1 = Inr s2"
    by blast
  have "\<exists>s3. link_fiber wip c ?el nf s2 = Inr s3"
    using assms(2) by (auto simp: link_fiber_def split: option.splits)
  then obtain s3 where 3: "link_fiber wip c ?el nf s2 = Inr s3" by blast
  show ?thesis using 1 2 3 by (simp add: reconcile_iter_def)
qed

text \<open>The fiber made in a pass keeps what it was made with.\<close>

lemma reconcile_iter_new:
  assumes "reconcile_iter wip els c s = Inr (c', s')"
    and "truthy (element_at els (index c))"
    and "\<forall>a. oldFiber c = Some a \<longrightarrow> a < fresh s"
  shows "\<exists>f. new_fiber wip (oldFiber c) (element_at els (index c)) s = Some f
     \<and> ftype (heap s' (fresh s)) = ftype f \<and> props (heap s' (fresh s)) = props f
     \<and> domNode (heap s' (fresh s)) = domNode f \<and> parent (heap s' (fresh s)) = parent f
     \<and> alternate (heap s' (fresh s)) = alternate f
     \<and> effectTag (heap s' (fresh s)) = effectTag f"
  using assms
  by (elim reconcile_iter_result) (auto simp: new_fiber_None)

text \<open>A pass on an old fiber and an element of its type deletes nothing.\<close>

lemma reconcile_iter_same:
  assumes "reconcile_iter wip els c s = Inr (c', s')"
    and "oldFiber c = None \<or> sameType s (oldFiber c) (element_at els (index c))"
  shows "deletions s' = deletions s
     \<and> (\<forall>b<fresh s. effectTag (heap s' b) = effectTag (heap s b))"
  using assms
  by (elim reconcile_iter_result) auto


section \<open>The reconciliation loop\<close>

lemma sib_chain_head:
  "sib_chain h x as \<Longrightarrow> x = (case as of [] \<Rightarrow> None | a # r \<Rightarrow> Some a)"
  by (cases x; cases as) auto

lemma sib_chain_cong:
  "\<forall>a\<in>set as. sibling (h' a) = sibling (h a) \<Longrightarrow> sib_chain h' x as = sib_chain h x as"
proof (induction as arbitrary: x)
  case Nil
  then show ?case by (cases x) auto
next
  case (Cons a as)
  then show ?case by (cases x) auto
qed

lemma truthy_element_at:
  "truthy (element_at els i) \<Longrightarrow> i < length els"
  by (auto simp: element_at_def split: if_splits)

lemma loop_inv_cond:
  assumes "loop_inv F els c s rest"
  shows "reconcile_cond els c \<longleftrightarrow> 0 < max (length els - index c) (length rest)"
proof -
  from assms have "sib_chain (heap s) (oldFiber c) rest" by (simp add: loop_inv_def)
  from sib_chain_head [OF this] show ?thesis
    by (cases rest) (auto simp: reconcile_cond_def)
qed

lemma loop_inv_step:
  assumes inv: "loop_inv F els c s rest" and cond: "reconcile_cond els c"
  shows "\<exists>c1 s1. reconcile_iter wip els c s = Inr (c1, s1)
           \<and> loop_inv F els c1 s1 (tl rest) \<and> index c1 = Suc (index c)"
proof -
  from inv have chain: "sib_chain (heap s) (oldFiber c) rest"
    and below: "\<forall>a\<in>set rest. a < F" and F: "F \<le> fresh s"
    and prev: "\<forall>p. prevSibling c = Some p \<longrightarrow> F \<le> p"
    and link: "0 < index c \<and> index c < length els \<longrightarrow> prevSibling c \<noteq> None"
    and tr: "\<forall>e\<in>set els. truthy e" and del: "deletions s \<noteq> None"
    by (simp_all add: loop_inv_def)
  have "index c \<noteq> 0 \<and> truthy (element_at els (index c)) \<longrightarrow> prevSibling c \<noteq> None"
    using link truthy_element_at [of els "index c"] by auto
  with del obtain c1 s1 where it: "reconcile_iter wip els c s = Inr (c1, s1)"
    using reconcile_iter_succeeds [of c s els wip] by auto
  have old_below: "\<forall>a. oldFiber c = Some a \<longrightarrow> a < fresh s"
    using sib_chain_head [OF chain] below F by (cases rest) auto
  note cur = reconcile_iter_cursor [OF it]
  have i1: "index c1 = Suc (index c)" by (rule cur(1))
  have o1: "oldFiber c1 = (case oldFiber c of None \<Rightarrow> None | Some a \<Rightarrow> sibling (heap s a))"
    by (rule cur(4) [OF old_below])
  have sib: "sibling (heap s1 b) = sibling (heap s b)" if "b \<in> set rest" for b
  proof -
    from that below F have "b < fresh s" "b < F" by auto
    with prev have "prevSibling c \<noteq> Some b" by auto
    with reconcile_iter_frame [OF it \<open>b < fresh s\<close>] show ?thesis by simp
  qed
  have chain1: "sib_chain (heap s1) (oldFiber c1) (tl rest)"
  proof (cases rest)
    case Nil
    with sib_chain_head [OF chain] o1 show ?thesis by simp
  next
    case (Cons a r)
    with sib_chain_head [OF chain] have oa: "oldFiber c = Some a" by simp
    with chain Cons have "sib_chain (heap s) (sibling (heap s a)) r" by simp
    moreover have "\<forall>b\<in>set r. sibling (heap s1 b) = sibling (heap s b)"
      using sib Cons by simp
    ultimately have "sib_chain (heap s1) (sibling (heap s a)) r"
      using sib_chain_cong [of r "heap s1" "heap s"] by simp
    with o1 oa Cons show ?thesis by simp
  qed
  have below1: "\<forall>a\<in>set (tl rest). a < F" using below by (cases rest) auto
  have F1: "F \<le> fresh s1" using F reconcile_iter_globals [OF it] by simp
  have prev1: "\<forall>p. prevSibling c1 = Some p \<longrightarrow> F \<le> p"
    using cur(2) F by (auto split: if_splits)
  have link1: "0 < index c1 \<and> index c1 < length els \<longrightarrow> prevSibling c1 \<noteq> None"
    using cur(2) i1 tr by (auto simp: element_at_def)
  have del1: "deletions s1 \<noteq> None" using del reconcile_iter_globals [OF it] by simp
  show ?thesis
    using it i1 chain1 below1 F1 prev1 link1 tr del1 by (simp add: loop_inv_def)
qed

lemma passes_inv:
  assumes "loop_inv F els c s rest" and "k \<le> max (length els - index c) (length rest)"
  shows "\<exists>c' s'. reconcile_passes k wip els c s = Inr (c', s')
           \<and> loop_inv F els c' s' (drop k rest) \<and> index c' = index c + k"
  using assms
proof (induction k arbitrary: c s rest)
  case 0
  then show ?case by simp
next
  case (Suc k)
  from Suc.prems have "reconcile_cond els c"
    using loop_inv_cond [of F els c s rest] by simp
  from loop_inv_step [OF Suc.prems(1) this, of wip]
  obtain c1 s1 where it: "reconcile_iter wip els c s = Inr (c1, s1)"
    and inv1: "loop_inv F els c1 s1 (tl rest)" and i1: "index c1 = Suc (index c)"
    by blast
  have "k \<le> max (length els - index c1) (length (tl rest))"
    using Suc.prems(2) i1 by auto
  from Suc.IH [OF inv1 this] it i1 show ?case
    by (auto simp: drop_Suc)
qed

lemma loop_eq_passes:
  assumes "loop_inv F els c s rest"
  shows "reconcile_loop fuel wip els c s =
     (if fuel < max (length els - index c) (length rest) then Inl OutOfFuel
      else reconcile_passes (max (length els - index c) (length rest)) wip els c s)"
  using assms
proof (induction fuel arbitrary: c s rest)
  case 0
  show ?case
    using loop_inv_cond [OF "0.prems"]
    by (subst reconcile_loop.simps) auto
next
  case (Suc fuel)
  show ?case
  proof (cases "reconcile_cond els c")
    case False
    with loop_inv_cond [OF Suc.prems] show ?thesis
      by (subst reconcile_loop.simps) auto
  next
    case True
    from loop_inv_step [OF Suc.prems True, of wip]
    obtain c1 s1 where it: "reconcile_iter wip els c s = Inr (c1, s1)"
      and inv1: "loop_inv F els c1 s1 (tl rest)" and i1: "index c1 = Suc (index c)"
      by blast
    let ?N = "max (length els - index c) (length rest)"
    have N: "0 < ?N" using loop_inv_cond [OF Suc.prems] True by simp
    have N1: "max (length els - index c1) (length (tl rest)) = ?N - 1"
      using i1 by auto
    have "reconcile_loop (Suc fuel) wip els c s = reconcile_loop fuel wip els c1 s1"
      using True it by (subst reconcile_loop.simps) simp
    also have "\<dots> = (if fuel < ?N - 1 then Inl OutOfFuel
                       else reconcile_passes (?N - 1) wip els c1 s1)"
      using Suc.IH [OF inv1] N1 by simp
    also have "\<dots> = (if Suc fuel < ?N then Inl OutOfFuel
                       else reconcile_passes ?N wip els c s)"
    proof -
      obtain m where m: "?N = Suc m" using N by (cases ?N) auto
      show ?thesis unfolding m using it by auto
    qed
    finally show ?thesis .
  qed
qed

lemma start_loop_inv:
  assumes "sib_chain (heap st) (oldFiber (start_cursor st wip)) olds"
    and "\<forall>a\<in>set olds. a < fresh st" and "\<forall>e\<in>set els. truthy e"
    and "deletions st \<noteq> None"
  shows "loop_inv (fresh st) els (start_cursor st wip) st olds"
  using assms by (simp add: loop_inv_def start_cursor_def)


text \<open>
  C8: let the loop be started by \<^verbatim>\<open>reconcileChildren\<close> on a list of (truthy) elements,
  with the old fibers to visit forming the finite sibling chain \<open>olds\<close>, and with the
  deletions list in place. Every pass that returns moves the index on by one and the
  old-fiber cursor to the sibling of the old fiber, whatever branch it takes. After
  \<open>k\<close> passes the index is \<open>k\<close> and the cursor is at the \<open>k\<close>-th old fiber, or empty
  beyond the chain; the condition of the loop holds exactly as long as \<open>k\<close> is below the
  larger of the two lengths. So the loop returns after exactly that many passes: with
  less fuel the model runs out of it, with that much or more it returns what the passes
  return, and \<^verbatim>\<open>reconcileChildren\<close> returns.
\<close>

theorem reconcile_loop_terminates:
  assumes "sib_chain (heap st) (oldFiber (start_cursor st wip)) olds"
    and "\<forall>a\<in>set olds. a < fresh st"
    and "\<forall>e\<in>set elements. truthy e"
    and "deletions st \<noteq> None"
  shows "(\<forall>c s c' s'. (\<forall>a. oldFiber c = Some a \<longrightarrow> a < fresh s)
            \<and> reconcile_iter wip elements c s = Inr (c', s') \<longrightarrow>
            index c' = Suc (index c)
            \<and> oldFiber c' = (case oldFiber c of None \<Rightarrow> None | Some a \<Rightarrow> sibling (heap s a)))
   \<and> (\<forall>k \<le> max (length elements) (length olds).
         \<exists>c s. reconcile_passes k wip elements (start_cursor st wip) st = Inr (c, s)
           \<and> index c = k
           \<and> oldFiber c = (if k < length olds then Some (olds ! k) else None)
           \<and> reconcile_cond elements c = (k < max (length elements) (length olds)))
   \<and> reconcile_loop fuel wip elements (start_cursor st wip) st =
        (if fuel < max (length elements) (length olds) then Inl OutOfFuel
         else reconcile_passes (max (length elements) (length olds)) wip elements
                (start_cursor st wip) st)
   \<and> (max (length elements) (length olds) \<le> fuel \<longrightarrow>
         (\<exists>st'. reconcileChildren fuel wip elements st = Inr st'))"
proof -
  let ?c = "start_cursor st wip"
  let ?N = "max (length elements) (length olds)"
  have inv: "loop_inv (fresh st) elements ?c st olds"
    using assms by (rule start_loop_inv)
  have i0: "index ?c = 0" by (simp add: start_cursor_def)
  have A: "index c' = Suc (index c)
            \<and> oldFiber c' = (case oldFiber c of None \<Rightarrow> None | Some a \<Rightarrow> sibling (heap s a))"
    if "\<forall>a. oldFiber c = Some a \<longrightarrow> a < fresh s"
      and "reconcile_iter wip elements c s = Inr (c', s')" for c s c' s'
    using reconcile_iter_cursor(1) [OF that(2)] reconcile_iter_cursor(4) [OF that(2) that(1)]
    by simp
  have B: "\<exists>c s. reconcile_passes k wip elements ?c st = Inr (c, s)
           \<and> index c = k
           \<and> oldFiber c = (if k < length olds then Some (olds ! k) else None)
           \<and> reconcile_cond elements c = (k < ?N)" if k: "k \<le> ?N" for k
  proof -
    from passes_inv [OF inv, of k wip] k i0
    obtain c s where p: "reconcile_passes k wip elements ?c st = Inr (c, s)"
      and inv': "loop_inv (fresh st) elements c s (drop k olds)" and ik: "index c = k"
      by auto
    from inv' have "sib_chain (heap s) (oldFiber c) (drop k olds)"
      by (simp add: loop_inv_def)
    from sib_chain_head [OF this]
    have o: "oldFiber c = (if k < length olds then Some (olds ! k) else None)"
    proof (cases "drop k olds")
      case Nil
      assume "oldFiber c = (case drop k olds of [] \<Rightarrow> None | a # r \<Rightarrow> Some a)"
      with Nil show ?thesis by simp
    next
      case (Cons a r)
      assume h: "oldFiber c = (case drop k olds of [] \<Rightarrow> None | a # r \<Rightarrow> Some a)"
      from Cons have lt: "k < length olds" by (cases "k < length olds") auto
      from hd_drop_conv_nth [OF lt] Cons have "olds ! k = a" by simp
      with h Cons lt show ?thesis by simp
    qed
    have "reconcile_cond elements c = (k < ?N)"
      using loop_inv_cond [OF inv'] ik by auto
    with p ik o show ?thesis by blast
  qed
  have C: "reconcile_loop fuel wip elements ?c st =
        (if fuel < ?N then Inl OutOfFuel else reconcile_passes ?N wip elements ?c st)"
    using loop_eq_passes [OF inv, of fuel wip] i0 by simp
  have D: "\<exists>st'. reconcileChildren fuel wip elements st = Inr st'" if "?N \<le> fuel"
  proof -
    from B [of ?N] obtain c s where "reconcile_passes ?N wip elements ?c st = Inr (c, s)"
      by auto
    with C that show ?thesis by (simp add: reconcileChildren_def)
  qed
  from A B C D show ?thesis by blast
qed

text \<open>
  A list of two items is rendered and committed, then a list of three is requested and
  the new root has been worked on: fiber 7 is the new \<^verbatim>\<open>ul\<close>, the old items are the
  fibers 2 and 3. The loop takes three passes and leaves the cursor empty; two units of
  fuel are not enough.
\<close>

theorem reconcile_loop_terminates_witness:
  "sib_chain (heap (working [Render (listing [''a'', ''b'']) 0, Idle [5, 5, 5, 5, 5, 5, 5],
                             Render (listing [''new'', ''a'', ''b'']) 0] [0]))
     (oldFiber (start_cursor (working [Render (listing [''a'', ''b'']) 0,
                   Idle [5, 5, 5, 5, 5, 5, 5], Render (listing [''new'', ''a'', ''b'']) 0] [0]) 7))
     [2, 3]
   \<and> reconcile_loop 2 7 [item ''new'', item ''a'', item ''b'']
        (start_cursor (working [Render (listing [''a'', ''b'']) 0,
                   Idle [5, 5, 5, 5, 5, 5, 5], Render (listing [''new'', ''a'', ''b'']) 0] [0]) 7)
        (working [Render (listing [''a'', ''b'']) 0, Idle [5, 5, 5, 5, 5, 5, 5],
                  Render (listing [''new'', ''a'', ''b'']) 0] [0])
       = Inl OutOfFuel
   \<and> (\<exists>c s. reconcile_loop 50 7 [item ''new'', item ''a'', item ''b'']
        (start_cursor (working [Render (listing [''a'', ''b'']) 0,
                   Idle [5, 5, 5, 5, 5, 5, 5], Render (listing [''new'', ''a'', ''b'']) 0] [0]) 7)
        (working [Render (listing [''a'', ''b'']) 0, Idle [5, 5, 5, 5, 5, 5, 5],
                  Render (listing [''new'', ''a'', ''b'']) 0] [0])
         = Inr (c, s) \<and> index c = 3 \<and> oldFiber c = None)"
proof -
  let ?st = "working [Render (listing [''a'', ''b'']) 0, Idle [5, 5, 5, 5, 5, 5, 5],
                      Render (listing [''new'', ''a'', ''b'']) 0] [0]"
  let ?els = "[item ''new'', item ''a'', item ''b'']"
  have "\<exists>st. ?st = st \<and> sib_chain (heap st) (oldFiber (start_cursor st 7)) [2, 3]
          \<and> (\<forall>a\<in>set [2, 3]. a < fresh st) \<and> deletions st \<noteq> None"
    by (simp add: engine_defs)
  then have a: "sib_chain (heap ?st) (oldFiber (start_cursor ?st 7)) [2, 3]"
    and b: "\<forall>a\<in>set [2, 3]. a < fresh ?st" and d: "deletions ?st \<noteq> None"
    by blast+
  have c: "\<forall>e\<in>set ?els. truthy e" by (simp add: engine_defs)
  note t = reconcile_loop_terminates [OF a b c d]
  define N where "N = max (length ?els) (length [2::nat, 3])"
  have N: "N = 3" by (simp add: N_def)
  from t [where fuel = 50]
  have P: "\<forall>k\<le>N. \<exists>c s. reconcile_passes k 7 ?els (start_cursor ?st 7) ?st = Inr (c, s)
           \<and> index c = k
           \<and> oldFiber c = (if k < length [2::nat, 3] then Some ([2, 3] ! k) else None)
           \<and> reconcile_cond ?els c = (k < N)"
    and L50: "reconcile_loop 50 7 ?els (start_cursor ?st 7) ?st =
        (if 50 < N then Inl OutOfFuel
         else reconcile_passes N 7 ?els (start_cursor ?st 7) ?st)"
    unfolding N_def by blast+
  from t [where fuel = 2]
  have L2: "reconcile_loop 2 7 ?els (start_cursor ?st 7) ?st =
        (if 2 < N then Inl OutOfFuel
         else reconcile_passes N 7 ?els (start_cursor ?st 7) ?st)"
    unfolding N_def by blast
  from P [rule_format, of N] obtain c s
    where p: "reconcile_passes N 7 ?els (start_cursor ?st 7) ?st = Inr (c, s)"
      and i: "index c = N"
      and o: "oldFiber c = (if N < length [2::nat, 3] then Some ([2, 3] ! N) else None)"
    by auto
  have "2 < N" and "\<not> 50 < N" using N by simp_all
  with L2 L50 p have "reconcile_loop 2 7 ?els (start_cursor ?st 7) ?st = Inl OutOfFuel"
    and "reconcile_loop 50 7 ?els (start_cursor ?st 7) ?st = Inr (c, s)"
    by simp_all
  moreover have "index c = 3" and "oldFiber c = None" using i o N by simp_all
  ultimately show ?thesis using a by blast
qed

section \<open>Inserting an element in front of a list of one tag\<close>

lemma sib_chain_unique:
  "sib_chain h x as \<Longrightarrow> sib_chain h x bs \<Longrightarrow> as = bs"
proof (induction as arbitrary: x bs)
  case Nil
  then show ?case by (cases x; cases bs) auto
next
  case (Cons a as)
  then show ?case by (cases x; cases bs) auto
qed

lemma sib_chain_suffix:
  "sib_chain h x as \<Longrightarrow> b \<in> set as \<Longrightarrow>
     \<exists>pre suf. as = pre @ b # suf \<and> sib_chain h (Some b) (b # suf)"
proof (induction as arbitrary: x)
  case Nil
  then show ?case by simp
next
  case (Cons a as)
  from Cons.prems(1) have x: "x = Some a" and r: "sib_chain h (sibling (h a)) as"
    by (cases x; auto)+
  show ?case
  proof (cases "b = a")
    case True
    with Cons.prems(1) x show ?thesis by (intro exI [of _ "[]"] exI [of _ as]) simp
  next
    case False
    with Cons.prems(2) have "b \<in> set as" by simp
    from Cons.IH [OF r this] obtain pre suf
      where "as = pre @ b # suf" "sib_chain h (Some b) (b # suf)" by blast
    then show ?thesis by (intro exI [of _ "a # pre"] exI [of _ suf]) simp
  qed
qed

lemma sib_chain_distinct: "sib_chain h x as \<Longrightarrow> distinct as"
proof (induction as arbitrary: x)
  case Nil
  show ?case by simp
next
  case (Cons a as)
  from Cons.prems have x: "x = Some a" and r: "sib_chain h (sibling (h a)) as"
    by (cases x; auto)+
  have "a \<notin> set as"
  proof
    assume "a \<in> set as"
    from sib_chain_suffix [OF r this] obtain pre suf
      where s: "as = pre @ a # suf" and c: "sib_chain h (Some a) (a # suf)" by blast
    from Cons.prems x have "sib_chain h (Some a) (a # as)" by simp
    from sib_chain_unique [OF c this] s show False by simp
  qed
  with Cons.IH [OF r] show ?case by simp
qed

lemma reconcile_passes_frame:
  assumes "reconcile_passes k wip els c s = Inr (c', s')" and "b < fresh s"
  shows "fresh s \<le> fresh s' \<and> props (heap s' b) = props (heap s b)
     \<and> alternate (heap s' b) = alternate (heap s b) \<and> ftype (heap s' b) = ftype (heap s b)
     \<and> domNode (heap s' b) = domNode (heap s b) \<and> parent (heap s' b) = parent (heap s b)"
  using assms
proof (induction k arbitrary: c s)
  case 0
  then show ?case by simp
next
  case (Suc k)
  from Suc.prems(1) obtain c1 s1 where it: "reconcile_iter wip els c s = Inr (c1, s1)"
    and rest: "reconcile_passes k wip els c1 s1 = Inr (c', s')"
    by (auto split: sum.splits)
  from reconcile_iter_globals [OF it] have le: "fresh s \<le> fresh s1" by simp
  with Suc.prems(2) have "b < fresh s1" by simp
  from Suc.IH [OF rest this] reconcile_iter_frame [OF it Suc.prems(2)] le
  show ?case by simp
qed

lemma same_type_passes:
  assumes "loop_inv F els c s rest"
    and "\<forall>a\<in>set rest. ftype (heap s a) = Some t"
    and "\<forall>i. index c \<le> i \<and> i < length els \<longrightarrow> el_type (els ! i) = Some t"
    and "length rest \<le> n" and "n = length els - index c"
    and "reconcile_passes n wip els c s = Inr (c', s')"
  shows "deletions s' = deletions s
     \<and> (\<forall>b<fresh s. effectTag (heap s' b) = effectTag (heap s b))
     \<and> fresh s' = fresh s + n
     \<and> (\<forall>j<n. props (heap s' (fresh s + j)) = el_props (els ! (index c + j))
           \<and> (j < length rest \<longrightarrow> effectTag (heap s' (fresh s + j)) = Some UPDATE
                 \<and> alternate (heap s' (fresh s + j)) = Some (rest ! j))
           \<and> (length rest \<le> j \<longrightarrow> effectTag (heap s' (fresh s + j)) = Some PLACEMENT
                 \<and> alternate (heap s' (fresh s + j)) = None))"
  using assms
proof (induction n arbitrary: c s rest)
  case 0
  then show ?case by simp
next
  case (Suc n)
  note inv = Suc.prems(1)
  from inv have chain: "sib_chain (heap s) (oldFiber c) rest"
    and below: "\<forall>a\<in>set rest. a < F" and F: "F \<le> fresh s"
    and tr: "\<forall>e\<in>set els. truthy e"
    by (simp_all add: loop_inv_def)
  from Suc.prems(5) have lt: "index c < length els" by simp
  let ?el = "element_at els (index c)"
  have el: "?el = els ! index c" using lt by (simp add: element_at_def)
  have tel: "truthy ?el" using el lt tr by simp
  have ety: "el_type ?el = Some t" using Suc.prems(3) lt el by simp
  from lt have "reconcile_cond els c" by (simp add: reconcile_cond_def)
  from loop_inv_step [OF inv this, of wip]
  obtain c1 s1 where it: "reconcile_iter wip els c s = Inr (c1, s1)"
    and inv1: "loop_inv F els c1 s1 (tl rest)" and i1: "index c1 = Suc (index c)"
    by blast
  from Suc.prems(6) it have rest_run: "reconcile_passes n wip els c1 s1 = Inr (c', s')"
    by simp
  have old_below: "\<forall>a. oldFiber c = Some a \<longrightarrow> a < fresh s"
    using sib_chain_head [OF chain] below F by (cases rest) auto
  have same: "oldFiber c = None \<and> rest = []
              \<or> (\<exists>a r. rest = a # r \<and> oldFiber c = Some a \<and> sameType s (oldFiber c) ?el)"
  proof (cases rest)
    case Nil
    with sib_chain_head [OF chain] show ?thesis by simp
  next
    case (Cons a r)
    with sib_chain_head [OF chain] have "oldFiber c = Some a" by simp
    moreover have "ftype (heap s a) = Some t" using Suc.prems(2) Cons by simp
    ultimately show ?thesis using Cons tel ety by (simp add: sameType_def)
  qed
  then have same': "oldFiber c = None \<or> sameType s (oldFiber c) ?el" by blast
  have fr1: "fresh s1 = Suc (fresh s)" using reconcile_iter_cursor(3) [OF it] tel by simp
  from reconcile_iter_new [OF it tel old_below] obtain f
    where nf: "new_fiber wip (oldFiber c) ?el s = Some f"
      and f1: "props (heap s1 (fresh s)) = props f"
              "alternate (heap s1 (fresh s)) = alternate f"
              "effectTag (heap s1 (fresh s)) = effectTag f"
    by blast
  have first: "props (heap s1 (fresh s)) = el_props (els ! index c)
       \<and> (0 < length rest \<longrightarrow> effectTag (heap s1 (fresh s)) = Some UPDATE
             \<and> alternate (heap s1 (fresh s)) = Some (rest ! 0))
       \<and> (length rest = 0 \<longrightarrow> effectTag (heap s1 (fresh s)) = Some PLACEMENT
             \<and> alternate (heap s1 (fresh s)) = None)"
    using same
  proof
    assume a: "oldFiber c = None \<and> rest = []"
    then have "\<not> sameType s (oldFiber c) ?el" by (simp add: sameType_def)
    from new_fiber_Some(6) [OF nf] new_fiber_Some(8) [OF nf this] f1 a el
    show ?thesis by simp
  next
    assume "\<exists>a r. rest = a # r \<and> oldFiber c = Some a \<and> sameType s (oldFiber c) ?el"
    then obtain a r where a: "rest = a # r" "oldFiber c = Some a"
      "sameType s (oldFiber c) ?el" by blast
    from new_fiber_Some(6) [OF nf] new_fiber_Some(7) [OF nf a(3)] f1 a el
    show ?thesis by simp
  qed
  have ty1: "\<forall>a\<in>set (tl rest). ftype (heap s1 a) = Some t"
  proof
    fix a assume "a \<in> set (tl rest)"
    then have m: "a \<in> set rest" by (cases rest) auto
    with below F have "a < fresh s" by auto
    from reconcile_iter_frame [OF it this] Suc.prems(2) m show "ftype (heap s1 a) = Some t"
      by simp
  qed
  have el1: "\<forall>i. index c1 \<le> i \<and> i < length els \<longrightarrow> el_type (els ! i) = Some t"
    using Suc.prems(3) i1 by simp
  have len1: "length (tl rest) \<le> n" using Suc.prems(4) by simp
  have n1: "n = length els - index c1" using Suc.prems(5) i1 by simp
  note IH = Suc.IH [OF inv1 ty1 el1 len1 n1 rest_run]
  note sm = reconcile_iter_same [OF it same']
  have d: "deletions s' = deletions s" using IH sm by simp
  have e: "effectTag (heap s' b) = effectTag (heap s b)" if "b < fresh s" for b
    using IH that fr1 sm by simp
  have fr: "fresh s' = fresh s + Suc n" using IH fr1 by simp
  have frame0: "props (heap s' (fresh s)) = props (heap s1 (fresh s))
     \<and> alternate (heap s' (fresh s)) = alternate (heap s1 (fresh s))
     \<and> effectTag (heap s' (fresh s)) = effectTag (heap s1 (fresh s))"
    using reconcile_passes_frame [OF rest_run, of "fresh s"] IH fr1 by simp
  have new: "props (heap s' (fresh s + j)) = el_props (els ! (index c + j))
           \<and> (j < length rest \<longrightarrow> effectTag (heap s' (fresh s + j)) = Some UPDATE
                 \<and> alternate (heap s' (fresh s + j)) = Some (rest ! j))
           \<and> (length rest \<le> j \<longrightarrow> effectTag (heap s' (fresh s + j)) = Some PLACEMENT
                 \<and> alternate (heap s' (fresh s + j)) = None)" if j: "j < Suc n" for j
  proof (cases j)
    case 0
    with first frame0 show ?thesis by simp
  next
    case (Suc j')
    with j have "j' < n" by simp
    with IH have p: "props (heap s' (fresh s1 + j')) = el_props (els ! (index c1 + j'))
           \<and> (j' < length (tl rest) \<longrightarrow> effectTag (heap s' (fresh s1 + j')) = Some UPDATE
                 \<and> alternate (heap s' (fresh s1 + j')) = Some (tl rest ! j'))
           \<and> (length (tl rest) \<le> j' \<longrightarrow> effectTag (heap s' (fresh s1 + j')) = Some PLACEMENT
                 \<and> alternate (heap s' (fresh s1 + j')) = None)"
      by blast
    have "j' < length (tl rest) \<Longrightarrow> tl rest ! j' = rest ! Suc j'"
      by (cases rest) auto
    with p Suc fr1 i1 show ?thesis by (cases rest) auto
  qed
  from d e fr new show ?case by blast
qed


text \<open>
  C1, as stated, fails: the last of the following siblings is placed, not updated. A list
  of the items a and b is rendered and committed; then the list new, a, b is requested
  and the root and the \<^verbatim>\<open>ul\<close> fiber are worked on. The old item fibers are 2 (a) and
  3 (b), the new ones 8, 9 and 10. Fiber 9, for a, is an \<^verbatim>\<open>UPDATE\<close> against the old
  fiber 3 of b; fiber 10, for b, is a \<^verbatim>\<open>PLACEMENT\<close> with no alternate.
\<close>

lemma insertion_example:
  "\<exists>st. after [Render (listing [''a'', ''b'']) 0, Idle [5, 5, 5, 5, 5, 5, 5],
               Render (listing [''new'', ''a'', ''b'']) 0, Idle [5, 0]] = st
     \<and> props (heap st 2) = el_props (item ''a'') \<and> props (heap st 3) = el_props (item ''b'')
     \<and> sibling (heap st 2) = Some 3
     \<and> child (heap st 7) = Some 8 \<and> sibling (heap st 8) = Some 9
     \<and> sibling (heap st 9) = Some 10 \<and> sibling (heap st 10) = None
     \<and> props (heap st 8) = el_props (item ''new'')
     \<and> props (heap st 9) = el_props (item ''a'') \<and> props (heap st 10) = el_props (item ''b'')
     \<and> effectTag (heap st 9) = Some UPDATE \<and> alternate (heap st 9) = Some 3
     \<and> effectTag (heap st 10) = Some PLACEMENT \<and> alternate (heap st 10) = None"
  by (simp add: engine_defs)

theorem insertion_places_last_sibling:
  "props (heap (after [Render (listing [''a'', ''b'']) 0, Idle [5, 5, 5, 5, 5, 5, 5],
               Render (listing [''new'', ''a'', ''b'']) 0, Idle [5, 0]]) 3)
     = el_props (item ''b'')
   \<and> props (heap (after [Render (listing [''a'', ''b'']) 0, Idle [5, 5, 5, 5, 5, 5, 5],
               Render (listing [''new'', ''a'', ''b'']) 0, Idle [5, 0]]) 9)
       = el_props (item ''a'')
   \<and> alternate (heap (after [Render (listing [''a'', ''b'']) 0, Idle [5, 5, 5, 5, 5, 5, 5],
               Render (listing [''new'', ''a'', ''b'']) 0, Idle [5, 0]]) 9) = Some 3
   \<and> sibling (heap (after [Render (listing [''a'', ''b'']) 0, Idle [5, 5, 5, 5, 5, 5, 5],
               Render (listing [''new'', ''a'', ''b'']) 0, Idle [5, 0]]) 9) = Some 10
   \<and> props (heap (after [Render (listing [''a'', ''b'']) 0, Idle [5, 5, 5, 5, 5, 5, 5],
               Render (listing [''new'', ''a'', ''b'']) 0, Idle [5, 0]]) 10)
       = el_props (item ''b'')
   \<and> effectTag (heap (after [Render (listing [''a'', ''b'']) 0, Idle [5, 5, 5, 5, 5, 5, 5],
               Render (listing [''new'', ''a'', ''b'']) 0, Idle [5, 0]]) 10) = Some PLACEMENT
   \<and> effectTag (heap (after [Render (listing [''a'', ''b'']) 0, Idle [5, 5, 5, 5, 5, 5, 5],
               Render (listing [''new'', ''a'', ''b'']) 0, Idle [5, 0]]) 10) \<noteq> Some UPDATE
   \<and> alternate (heap (after [Render (listing [''a'', ''b'']) 0, Idle [5, 5, 5, 5, 5, 5, 5],
               Render (listing [''new'', ''a'', ''b'']) 0, Idle [5, 0]]) 10) = None"
proof -
  from insertion_example obtain st
    where e: "after [Render (listing [''a'', ''b'']) 0, Idle [5, 5, 5, 5, 5, 5, 5],
               Render (listing [''new'', ''a'', ''b'']) 0, Idle [5, 0]] = st"
      and f: "props (heap st 3) = el_props (item ''b'')"
        "props (heap st 9) = el_props (item ''a'')" "alternate (heap st 9) = Some 3"
        "sibling (heap st 9) = Some 10" "props (heap st 10) = el_props (item ''b'')"
        "effectTag (heap st 10) = Some PLACEMENT" "alternate (heap st 10) = None"
    by blast
  show ?thesis unfolding e using f by simp
qed

text \<open>
  C1, amended: let the old sibling list be \<open>n\<close> fibers of one tag and the new child list
  \<open>n + 1\<close> elements of that tag, one inserted in front. Then \<^verbatim>\<open>reconcileChildren\<close>
  returns, appends nothing to the deletions and changes the tag of no existing fiber. The
  new fiber of position \<open>j < n\<close> is tagged \<^verbatim>\<open>UPDATE\<close> with the old fiber of position \<open>j\<close>
  as alternate; since the old fibers are distinct, the element that followed the
  insertion point at old position \<open>j\<close> is, for \<open>j + 1 < n\<close>, updated against another old
  fiber than its own. The new fiber of the last position \<open>n\<close>, which holds the last of the
  following siblings, is tagged \<^verbatim>\<open>PLACEMENT\<close> and has no alternate.
\<close>

theorem insertion_in_front:
  assumes "sib_chain (heap st) (oldFiber (start_cursor st wip)) olds"
    and "\<forall>a\<in>set olds. a < fresh st \<and> ftype (heap st a) = Some t"
    and "length bs = length olds"
    and "deletions st \<noteq> None"
    and "Suc (length olds) \<le> fuel"
  shows "\<exists>st'. reconcileChildren fuel wip (Elem t b0 # map (Elem t) bs) st = Inr st'
     \<and> deletions st' = deletions st
     \<and> (\<forall>a<fresh st. effectTag (heap st' a) = effectTag (heap st a))
     \<and> (\<forall>j<length olds. effectTag (heap st' (fresh st + j)) = Some UPDATE
            \<and> alternate (heap st' (fresh st + j)) = Some (olds ! j))
     \<and> props (heap st' (fresh st)) = Some b0
     \<and> (\<forall>j<length olds. props (heap st' (fresh st + Suc j)) = Some (bs ! j))
     \<and> effectTag (heap st' (fresh st + length olds)) = Some PLACEMENT
     \<and> alternate (heap st' (fresh st + length olds)) = None
     \<and> distinct olds"
proof -
  let ?els = "Elem t b0 # map (Elem t) bs"
  let ?c = "start_cursor st wip"
  let ?n = "Suc (length olds)"
  have len: "length ?els = ?n" using assms(3) by simp
  have tr: "\<forall>e\<in>set ?els. truthy e" by auto
  have below: "\<forall>a\<in>set olds. a < fresh st" and ty: "\<forall>a\<in>set olds. ftype (heap st a) = Some t"
    using assms(2) by auto
  have inv: "loop_inv (fresh st) ?els ?c st olds"
    using assms(1) below tr assms(4) by (rule start_loop_inv)
  have i0: "index ?c = 0" by (simp add: start_cursor_def)
  have N: "max (length ?els - index ?c) (length olds) = ?n" using len i0 by simp
  from passes_inv [OF inv, of ?n wip] N
  obtain c' s' where run: "reconcile_passes ?n wip ?els ?c st = Inr (c', s')" by auto
  have loop: "reconcile_loop fuel wip ?els ?c st = Inr (c', s')"
    using loop_eq_passes [OF inv, of fuel wip] N run assms(5) by simp
  have ety: "\<forall>i. index ?c \<le> i \<and> i < length ?els \<longrightarrow> el_type (?els ! i) = Some t"
  proof (intro allI impI)
    fix i assume "index ?c \<le> i \<and> i < length ?els"
    then have "i < Suc (length bs)" by simp
    then show "el_type (?els ! i) = Some t" by (cases i) auto
  qed
  have n: "?n = length ?els - index ?c" using len i0 by simp
  have le: "length olds \<le> ?n" by simp
  note S = same_type_passes [OF inv ty ety le n run]
  have p: "props (heap s' (fresh st + j)) = el_props (?els ! j)" if "j < ?n" for j
    using S that i0 by simp
  have p0: "props (heap s' (fresh st)) = Some b0" using p [of 0] by simp
  have pj: "props (heap s' (fresh st + Suc j)) = Some (bs ! j)" if "j < length olds" for j
    using p [of "Suc j"] that assms(3) by simp
  have u: "effectTag (heap s' (fresh st + j)) = Some UPDATE
            \<and> alternate (heap s' (fresh st + j)) = Some (olds ! j)" if "j < length olds" for j
    using S that by simp
  have pl: "effectTag (heap s' (fresh st + length olds)) = Some PLACEMENT
     \<and> alternate (heap s' (fresh st + length olds)) = None"
    using S by simp
  have r: "reconcileChildren fuel wip ?els st = Inr s'"
    using loop by (simp add: reconcileChildren_def)
  from r S p0 pj u pl sib_chain_distinct [OF assms(1)] show ?thesis by blast
qed

theorem insertion_in_front_witness:
  "\<exists>st'. reconcileChildren 50 7 [item ''new'', item ''a'', item ''b'']
            (working [Render (listing [''a'', ''b'']) 0, Idle [5, 5, 5, 5, 5, 5, 5],
                      Render (listing [''new'', ''a'', ''b'']) 0] [0]) = Inr st'
     \<and> effectTag (heap st' 8) = Some UPDATE \<and> alternate (heap st' 8) = Some 2
     \<and> effectTag (heap st' 9) = Some UPDATE \<and> alternate (heap st' 9) = Some 3
     \<and> effectTag (heap st' 10) = Some PLACEMENT \<and> alternate (heap st' 10) = None
     \<and> deletions st' = Some []"
proof -
  let ?st = "working [Render (listing [''a'', ''b'']) 0, Idle [5, 5, 5, 5, 5, 5, 5],
                      Render (listing [''new'', ''a'', ''b'']) 0] [0]"
  have "\<exists>st. ?st = st \<and> sib_chain (heap st) (oldFiber (start_cursor st 7)) [2, 3]
          \<and> (\<forall>a\<in>set [2, 3]. a < fresh st \<and> ftype (heap st a) = Some (Host ''li''))
          \<and> deletions st = Some [] \<and> fresh st = 8"
    by (simp add: engine_defs)
  then have a: "sib_chain (heap ?st) (oldFiber (start_cursor ?st 7)) [2, 3]"
    and b: "\<forall>a\<in>set [2, 3]. a < fresh ?st \<and> ftype (heap ?st a) = Some (Host ''li'')"
    and d: "deletions ?st = Some []" and f: "fresh ?st = 8"
    by blast+
  have d': "deletions ?st \<noteq> None" using d by simp
  have els: "[item ''new'', item ''a'', item ''b'']
     = Elem (Host ''li'') [(''children'', Arr [createTextElement (Str ''new'')])]
       # map (Elem (Host ''li''))
           [[(''children'', Arr [createTextElement (Str ''a'')])],
            [(''children'', Arr [createTextElement (Str ''b'')])]]"
    by (simp add: item_def createElement_def spread_def normalize_child_def)
  from insertion_in_front [OF a b _ d', where fuel = 50
      and bs = "[[(''children'', Arr [createTextElement (Str ''a'')])],
                 [(''children'', Arr [createTextElement (Str ''b'')])]]"
      and ?b0.0 = "[(''children'', Arr [createTextElement (Str ''new'')])]"]
  obtain st' where r: "reconcileChildren 50 7 [item ''new'', item ''a'', item ''b''] ?st = Inr st'"
    and dl: "deletions st' = deletions ?st"
    and u: "\<forall>j<length [2::nat, 3]. effectTag (heap st' (fresh ?st + j)) = Some UPDATE
            \<and> alternate (heap st' (fresh ?st + j)) = Some ([2, 3] ! j)"
    and p: "effectTag (heap st' (fresh ?st + length [2::nat, 3])) = Some PLACEMENT"
           "alternate (heap st' (fresh ?st + length [2::nat, 3])) = None"
    unfolding els by auto
  from u [rule_format, of 0] u [rule_format, of 1] p r dl d f show ?thesis
    by (intro exI [of _ st']) simp
qed

section \<open>The fiber store stays well formed\<close>













section \<open>Root pointers are never reused\<close>



lemma grows_same:
  "fresh s' = fresh s \<Longrightarrow> wipRoot s' = wipRoot s \<Longrightarrow> currentRoot s' = currentRoot s \<Longrightarrow>
     grows s s'"
  by (simp add: grows_def)









































section \<open>Discarded work is never committed\<close>



section \<open>The walk of a commit\<close>









end
